theory Spec2Isabelle
  imports Main "HOL-Library.List_Lexorder"
begin

section \<open>check\_translations.py: the audit of locale files for missing keys\<close>

text \<open>
  The script reads \<^verbatim>\<open>../locales/en.ts\<close>, collects the keys declared at the start of
  its lines, does the same for every other \<^verbatim>\<open>.ts\<close> file of the directory and prints the
  keys of the reference file that a file lacks.

  A Python \<^verbatim>\<open>str\<close> is a sequence of Unicode code points, so a string is a list of
  natural numbers here (the code point of each character), and \<open>ascii\<close> writes a literal
  of the source. Strings are compared as Python compares them: lexicographically by code point.
\<close>

type_synonym str = "nat list"

definition ascii :: "string \<Rightarrow> str" where
  "ascii s = map of_char s"

subsection \<open>The character classes of the pattern\<close>

text \<open>
  For a \<^verbatim>\<open>str\<close> pattern, \<^verbatim>\<open>\s\<close> is \<^verbatim>\<open>str.isspace\<close> and \<^verbatim>\<open>\w\<close> is
  \<^verbatim>\<open>str.isalnum\<close> or the underscore. On the ASCII range the two classes are fixed and are
  written out. Beyond it they are read from the Unicode database of the running interpreter,
  a table that is not part of the repository: \<open>interpreter\<close> takes it as a parameter
  (\<open>uni_space\<close>, \<open>uni_alnum\<close>). The third field is the encoding of \<^verbatim>\<open>sys.stdout\<close>, which
  the interpreter fixes when it starts: \<open>stdout_encodes c\<close> says that the stream can encode
  the code point \<open>c\<close> (under strict UTF-8 every code point but a lone surrogate, under
  ASCII none from 128 up).
\<close>

record interpreter =
  uni_space :: "nat \<Rightarrow> bool"
  uni_alnum :: "nat \<Rightarrow> bool"
  stdout_encodes :: "nat \<Rightarrow> bool"

definition is_space :: "interpreter \<Rightarrow> nat \<Rightarrow> bool" where
  "is_space u c =
     (if c < 128 then (9 \<le> c \<and> c \<le> 13) \<or> (28 \<le> c \<and> c \<le> 32)
      else uni_space u c)"

definition is_word :: "interpreter \<Rightarrow> nat \<Rightarrow> bool" where
  "is_word u c =
     (if c < 128
      then (48 \<le> c \<and> c \<le> 57) \<or> (65 \<le> c \<and> c \<le> 90) \<or> (97 \<le> c \<and> c \<le> 122) \<or> c = 95
      else uni_alnum u c)"

datatype cclass = Whitespace | WordChar

fun in_class :: "interpreter \<Rightarrow> cclass \<Rightarrow> nat \<Rightarrow> bool" where
  "in_class u Whitespace c = is_space u c"
| "in_class u WordChar c = is_word u c"

subsection \<open>The regular expression \<^verbatim>\<open>^\s*(\w+):\<close> and \<^verbatim>\<open>re.search\<close>\<close>

text \<open>
  The pattern is a sequence of four items: the anchor \<^verbatim>\<open>^\<close>, the greedy \<^verbatim>\<open>\s*\<close>, the
  greedy \<^verbatim>\<open>\w+\<close> (the only group) and the literal colon. \<open>match_items\<close> is the
  backtracking matcher of the \<^verbatim>\<open>re\<close> module on such sequences: a greedy item first takes
  one more character and gives it back when the rest of the pattern fails. It returns the
  text each item matched. \<open>pos\<close> is the offset in the searched string; without
  \<^verbatim>\<open>re.MULTILINE\<close> the anchor matches at offset 0 only. \<open>re_search\<close> tries every offset
  from left to right, as \<^verbatim>\<open>re.search\<close> does.
\<close>

datatype item = Caret | Star cclass | Plus cclass | Lit nat

fun match_items :: "interpreter \<Rightarrow> item list \<Rightarrow> nat \<Rightarrow> str \<Rightarrow> str list option" where
  "match_items u [] pos s = Some []"
| "match_items u (Caret # its) pos s =
     (if pos = 0 then map_option ((#) []) (match_items u its pos s) else None)"
| "match_items u (Lit a # its) pos [] = None"
| "match_items u (Lit a # its) pos (c # cs) =
     (if c = a then map_option ((#) [c]) (match_items u its (Suc pos) cs) else None)"
| "match_items u (Star k # its) pos [] = map_option ((#) []) (match_items u its pos [])"
| "match_items u (Star k # its) pos (c # cs) =
     (if in_class u k c then
        (case match_items u (Star k # its) (Suc pos) cs of
           Some (m # ms) \<Rightarrow> Some ((c # m) # ms)
         | _ \<Rightarrow> map_option ((#) []) (match_items u its pos (c # cs)))
      else map_option ((#) []) (match_items u its pos (c # cs)))"
| "match_items u (Plus k # its) pos [] = None"
| "match_items u (Plus k # its) pos (c # cs) =
     (if in_class u k c then
        (case match_items u (Star k # its) (Suc pos) cs of
           Some (m # ms) \<Rightarrow> Some ((c # m) # ms)
         | _ \<Rightarrow> None)
      else None)"

fun re_search :: "interpreter \<Rightarrow> item list \<Rightarrow> nat \<Rightarrow> str \<Rightarrow> str list option" where
  "re_search u its pos [] = match_items u its pos []"
| "re_search u its pos (c # cs) =
     (case match_items u its pos (c # cs) of
        Some ms \<Rightarrow> Some ms
      | None \<Rightarrow> re_search u its (Suc pos) cs)"

definition key_pattern :: "item list" where
  "key_pattern = [Caret, Star Whitespace, Plus WordChar, Lit 58]"

text \<open>
  \<^verbatim>\<open>match = re.search(r'^\s*(\w+):', line)\<close> followed by \<^verbatim>\<open>match.group(1)\<close>: the group
  is the third item of the pattern.
\<close>

definition search_key :: "interpreter \<Rightarrow> str \<Rightarrow> str option" where
  "search_key u line =
     (case re_search u key_pattern 0 line of
        None \<Rightarrow> None
      | Some ms \<Rightarrow> Some (ms ! 2))"

subsection \<open>Files\<close>

text \<open>
  What the operating system answers: \<open>listdir\<close> is \<^verbatim>\<open>os.listdir\<close>, the names of a
  directory in the order the system lists them, and \<open>read_text\<close> is the text of a file
  opened with \<^verbatim>\<open>open(path, 'r', encoding='utf-8')\<close>, decoded. Both can raise:
  \<^verbatim>\<open>OSError\<close> when the path is missing or may not be read (the spec's FileAccessError),
  \<^verbatim>\<open>UnicodeDecodeError\<close> when the bytes are not UTF-8 (the spec's DecodingError).
  The third exception of a run is the \<^verbatim>\<open>UnicodeEncodeError\<close> of \<^verbatim>\<open>print\<close>, with the
  text that could not be written.
\<close>

datatype error = OSError str | UnicodeDecodeError str | UnicodeEncodeError str

record filesystem =
  listdir :: "str \<Rightarrow> error + str list"
  read_text :: "str \<Rightarrow> error + str"

text \<open>
  A file opened in text mode translates \<^verbatim>\<open>\r\n\<close> and a lone \<^verbatim>\<open>\r\<close> to \<^verbatim>\<open>\n\<close>;
  the flag says that the character before was a carriage return. Iterating over the file
  gives its lines, each with its \<^verbatim>\<open>\n\<close>, the last one possibly without.
\<close>

fun universal_newlines :: "bool \<Rightarrow> str \<Rightarrow> str" where
  "universal_newlines after_cr [] = []"
| "universal_newlines after_cr (c # cs) =
     (if c = 13 then 10 # universal_newlines True cs
      else if c = 10 then
        (if after_cr then universal_newlines False cs else 10 # universal_newlines False cs)
      else c # universal_newlines False cs)"

fun split_lines :: "str \<Rightarrow> str list" where
  "split_lines [] = []"
| "split_lines (c # cs) =
     (if c = 10 then [c] # split_lines cs
      else (case split_lines cs of [] \<Rightarrow> [[c]] | l # ls \<Rightarrow> (c # l) # ls))"

definition text_lines :: "str \<Rightarrow> str list" where
  "text_lines t = split_lines (universal_newlines False t)"

text \<open>\<^verbatim>\<open>posixpath.join\<close> of two components, \<^verbatim>\<open>str.startswith\<close> and \<^verbatim>\<open>str.endswith\<close>.\<close>

definition startswith :: "str \<Rightarrow> str \<Rightarrow> bool" where
  "startswith s pre = (take (length pre) s = pre)"

definition endswith :: "str \<Rightarrow> str \<Rightarrow> bool" where
  "endswith s suf = (length suf \<le> length s \<and> drop (length s - length suf) s = suf)"

definition path_join :: "str \<Rightarrow> str \<Rightarrow> str" where
  "path_join a b =
     (if startswith b [47] then b
      else if a = [] \<or> endswith a [47] then a @ b
      else a @ [47] @ b)"

definition locales_dir :: str where
  "locales_dir = ascii ''../locales''"

definition en_file :: str where
  "en_file = path_join locales_dir (ascii ''en.ts'')"

subsection \<open>The state of a run\<close>

text \<open>
  The two module variables the loop works on, the text written to standard output so far,
  and the paths given to \<^verbatim>\<open>open\<close> so far, in order (the trace of the run's reads; the
  script itself keeps no such list). A Python set is a set: the script takes its length,
  a difference, its truth value and \<^verbatim>\<open>sorted\<close> of it, and never sees the order in which
  it would be iterated. The dictionary \<open>missing_report\<close> keeps its insertion order, so it is
  an association list. \<open>stdout\<close> is the text that \<^verbatim>\<open>print\<close> has written, as text (the
  bytes are its encoding). Before its assignment \<open>en_keys\<close> is unbound in Python;
  \<open>init_state\<close> has the empty set there and nothing reads it.
\<close>

record state =
  en_keys :: "str set"
  missing_report :: "(str \<times> str set) list"
  stdout :: str
  opened :: "str list"

definition init_state :: state where
  "init_state = \<lparr>en_keys = {}, missing_report = [], stdout = [], opened = []\<rparr>"

text \<open>
  \<^verbatim>\<open>print(x)\<close> writes \<open>x\<close> and then a newline to \<^verbatim>\<open>sys.stdout\<close>. The stream encodes
  the whole of \<open>x\<close> before it takes any of it: when a character of \<open>x\<close> cannot be encoded
  the write raises \<^verbatim>\<open>UnicodeEncodeError\<close> and the output is as it was. The characters
  of the ASCII range are taken by every encoding a standard output has.
\<close>

definition encodable :: "interpreter \<Rightarrow> nat \<Rightarrow> bool" where
  "encodable u c = (c < 128 \<or> stdout_encodes u c)"

definition print :: "interpreter \<Rightarrow> str \<Rightarrow> state \<Rightarrow> error option \<times> state" where
  "print u x s =
     (if list_all (encodable u) x then (None, s\<lparr>stdout := stdout s @ x @ [10]\<rparr>)
      else (Some (UnicodeEncodeError x), s))"

text \<open>\<^verbatim>\<open>d[k] = v\<close>: an existing key keeps its place, a new one goes to the end.\<close>

fun dict_set :: "('k \<times> 'v) list \<Rightarrow> 'k \<Rightarrow> 'v \<Rightarrow> ('k \<times> 'v) list" where
  "dict_set [] k v = [(k, v)]"
| "dict_set ((k', v') # d) k v = (if k' = k then (k, v) # d else (k', v') # dict_set d k v)"

text \<open>\<^verbatim>\<open>str(n)\<close> for the length of a set.\<close>

fun str_nat :: "nat \<Rightarrow> str" where
  "str_nat n = (if n < 10 then [48 + n] else str_nat (n div 10) @ [48 + n mod 10])"

declare str_nat.simps [simp del]

subsection \<open>extract\_keys\<close>

text \<open>The loop over the lines of one file, then the function with its \<^verbatim>\<open>open\<close>.\<close>

definition add_key :: "interpreter \<Rightarrow> str \<Rightarrow> str set \<Rightarrow> str set" where
  "add_key u line keys =
     (case search_key u line of None \<Rightarrow> keys | Some k \<Rightarrow> insert k keys)"

definition keys_of_text :: "interpreter \<Rightarrow> str \<Rightarrow> str set" where
  "keys_of_text u t = fold (add_key u) (text_lines t) {}"

definition extract_keys ::
  "interpreter \<Rightarrow> filesystem \<Rightarrow> str \<Rightarrow> state \<Rightarrow> (error + str set) \<times> state" where
  "extract_keys u fs file_path s =
     (let s' = s\<lparr>opened := opened s @ [file_path]\<rparr> in
      case read_text fs file_path of
        Inl e \<Rightarrow> (Inl e, s')
      | Inr t \<Rightarrow> (Inr (keys_of_text u t), s'))"

subsection \<open>The module body\<close>

text \<open>
  \<open>file_path\<close> is \<^verbatim>\<open>os.path.join(locales_dir, filename)\<close> and \<open>skipped\<close> is the test
  before \<^verbatim>\<open>continue\<close>. \<open>scan\<close> is the \<^verbatim>\<open>for\<close> loop over the
  listing; an exception of \<open>extract_keys\<close> ends it, with the state reached so far.
  \<open>run\<close> is the module body: the error that ended the run, if any, and the state it left.
\<close>

abbreviation file_path :: "str \<Rightarrow> str" where
  "file_path filename \<equiv> path_join locales_dir filename"

definition skipped :: "str \<Rightarrow> bool" where
  "skipped filename = (filename = ascii ''en.ts'' \<or> \<not> endswith filename (ascii ''.ts''))"

fun scan :: "interpreter \<Rightarrow> filesystem \<Rightarrow> str list \<Rightarrow> state \<Rightarrow> error option \<times> state" where
  "scan u fs [] s = (None, s)"
| "scan u fs (filename # rest) s =
     (if skipped filename then scan u fs rest s
      else
        (case extract_keys u fs (file_path filename) s of
           (Inl e, s') \<Rightarrow> (Some e, s')
         | (Inr keys, s') \<Rightarrow>
             (let missing = en_keys s' - keys in
              if missing \<noteq> {}
              then scan u fs rest
                     (s'\<lparr>missing_report := dict_set (missing_report s') filename missing\<rparr>)
              else scan u fs rest s')))"

text \<open>
  The two loops of the report: \<open>print_keys\<close> over the sorted keys of one file,
  \<open>print_sections\<close> over the entries of the dictionary. An exception of \<^verbatim>\<open>print\<close> ends
  both, with what was written before it.
\<close>

fun print_keys :: "interpreter \<Rightarrow> str list \<Rightarrow> state \<Rightarrow> error option \<times> state" where
  "print_keys u [] s = (None, s)"
| "print_keys u (key # keys) s =
     (case print u (ascii '' - '' @ key) s of
        (Some e, s') \<Rightarrow> (Some e, s')
      | (None, s') \<Rightarrow> print_keys u keys s')"

definition print_section ::
  "interpreter \<Rightarrow> str \<times> str set \<Rightarrow> state \<Rightarrow> error option \<times> state" where
  "print_section u entry s =
     (case print u ([10] @ ascii ''Missing keys in '' @ fst entry @ ascii '':'') s of
        (Some e, s') \<Rightarrow> (Some e, s')
      | (None, s') \<Rightarrow> print_keys u (sorted_list_of_set (snd entry)) s')"

fun print_sections ::
  "interpreter \<Rightarrow> (str \<times> str set) list \<Rightarrow> state \<Rightarrow> error option \<times> state" where
  "print_sections u [] s = (None, s)"
| "print_sections u (entry # rest) s =
     (case print_section u entry s of
        (Some e, s') \<Rightarrow> (Some e, s')
      | (None, s') \<Rightarrow> print_sections u rest s')"

definition render :: "interpreter \<Rightarrow> state \<Rightarrow> error option \<times> state" where
  "render u s =
     (if missing_report s = [] then print u (ascii ''All good! No missing keys found.'') s
      else print_sections u (missing_report s) s)"

definition run :: "interpreter \<Rightarrow> filesystem \<Rightarrow> error option \<times> state" where
  "run u fs =
     (case extract_keys u fs en_file init_state of
        (Inl e, s1) \<Rightarrow> (Some e, s1)
      | (Inr keys, s1) \<Rightarrow>
          (case print u (ascii ''Found '' @ str_nat (card keys) @ ascii '' keys in en.ts'')
                  (s1\<lparr>en_keys := keys\<rparr>) of
             (Some e, s2) \<Rightarrow> (Some e, s2)
           | (None, s2) \<Rightarrow>
               (let s3 = s2\<lparr>missing_report := []\<rparr>
                in case listdir fs locales_dir of
                     Inl e \<Rightarrow> (Some e, s3)
                   | Inr names \<Rightarrow>
                       (case scan u fs names s3 of
                          (Some e, s4) \<Rightarrow> (Some e, s4)
                        | (None, s4) \<Rightarrow> render u s4))))"

subsection \<open>Notions used in the statements\<close>

text \<open>
  The one fact about the Unicode database that the key pattern relies on: no code point
  is both whitespace and alphanumeric. (On the ASCII range this is visible in \<open>is_space\<close>
  and \<open>is_word\<close>; the colon is in neither class.)
\<close>

definition db_disjoint :: "interpreter \<Rightarrow> bool" where
  "db_disjoint u = (\<forall>c. \<not> (uni_space u c \<and> uni_alnum u c))"

text \<open>
  The spec's words for a key declaration: the line is some leading whitespace, then a
  non-empty run \<open>w\<close> of word characters, then a colon, then anything.
\<close>

definition declares_key :: "interpreter \<Rightarrow> str \<Rightarrow> str \<Rightarrow> bool" where
  "declares_key u line w =
     (\<exists>ws rest. line = ws @ w @ 58 # rest \<and> list_all (is_space u) ws \<and>
        w \<noteq> [] \<and> list_all (is_word u) w)"

text \<open>The same as a left-to-right scan without backtracking.\<close>

definition scan_key :: "interpreter \<Rightarrow> str \<Rightarrow> str option" where
  "scan_key u line =
     (let r = dropWhile (is_space u) line; w = takeWhile (is_word u) r
      in if w \<noteq> [] \<and> startswith (dropWhile (is_word u) r) [58] then Some w else None)"

text \<open>
  For concrete runs: an interpreter with no whitespace and no letters beyond ASCII and
  with an ASCII standard output, and one that also knows the letters from U+00C0 to
  U+00FF (but for the two signs among them) and has an ASCII standard output as well.
\<close>

definition ascii_db :: interpreter where
  "ascii_db =
     \<lparr>uni_space = (\<lambda>c. False), uni_alnum = (\<lambda>c. False), stdout_encodes = (\<lambda>c. False)\<rparr>"

definition ascii_out_db :: interpreter where
  "ascii_out_db =
     \<lparr>uni_space = (\<lambda>c. False),
      uni_alnum = (\<lambda>c. 192 \<le> c \<and> c < 256 \<and> c \<noteq> 215 \<and> c \<noteq> 247),
      stdout_encodes = (\<lambda>c. False)\<rparr>"

text \<open>The four lines of the spec's extraction example, and a directory holding them.\<close>

definition sample_text :: str where
  "sample_text = ascii ''  foo: bar'' @ [10] @ ascii ''baz: qux'' @ [10] @
                 ascii ''not_a_key line'' @ [10] @ ascii ''  123abc: x'' @ [10]"

definition sample_fs :: filesystem where
  "sample_fs =
     \<lparr>listdir = (\<lambda>p. if p = locales_dir then Inr [ascii ''en.ts''] else Inl (OSError p)),
      read_text = (\<lambda>p. if p = en_file then Inr sample_text else Inl (OSError p))\<rparr>"

text \<open>
  The files the loop reads, whether a path can be read, the keys of a file (none when
  it cannot be read), and the keys of \<open>K\<close> that a file of the directory lacks.
\<close>

definition candidates :: "str list \<Rightarrow> str list" where
  "candidates names = filter (\<lambda>filename. \<not> skipped filename) names"

definition readable :: "filesystem \<Rightarrow> str \<Rightarrow> bool" where
  "readable fs path = (case read_text fs path of Inl e \<Rightarrow> False | Inr t \<Rightarrow> True)"

definition file_keys :: "interpreter \<Rightarrow> filesystem \<Rightarrow> str \<Rightarrow> str set" where
  "file_keys u fs path = (case read_text fs path of Inl e \<Rightarrow> {} | Inr t \<Rightarrow> keys_of_text u t)"

definition missing_of :: "interpreter \<Rightarrow> filesystem \<Rightarrow> str set \<Rightarrow> str \<Rightarrow> str set" where
  "missing_of u fs K filename = K - file_keys u fs (file_path filename)"

definition reported :: "state \<Rightarrow> str \<Rightarrow> str set" where
  "reported s filename = (case map_of (missing_report s) filename of None \<Rightarrow> {} | Some m \<Rightarrow> m)"

text \<open>The text of the output, piece by piece.\<close>

definition found_line :: "str set \<Rightarrow> str" where
  "found_line K = ascii ''Found '' @ str_nat (card K) @ ascii '' keys in en.ts'' @ [10]"

definition all_good :: str where
  "all_good = ascii ''All good! No missing keys found.'' @ [10]"

definition section_text :: "str \<times> str set \<Rightarrow> str" where
  "section_text entry =
     [10] @ ascii ''Missing keys in '' @ fst entry @ ascii '':'' @ [10] @
     concat (map (\<lambda>key. ascii '' - '' @ key @ [10]) (sorted_list_of_set (snd entry)))"

text \<open>
  The state after the reference file was read and its line printed, and the state after
  one more file was read in the loop.
\<close>

definition after_ref :: "str set \<Rightarrow> state" where
  "after_ref K = \<lparr>en_keys = K, missing_report = [], stdout = found_line K, opened = [en_file]\<rparr>"

definition after_file :: "str \<Rightarrow> str set \<Rightarrow> state \<Rightarrow> state" where
  "after_file filename keys s =
     (if en_keys s - keys \<noteq> {}
      then s\<lparr>opened := opened s @ [file_path filename],
             missing_report := dict_set (missing_report s) filename (en_keys s - keys)\<rparr>
      else s\<lparr>opened := opened s @ [file_path filename]\<rparr>)"

text \<open>
  Printing changes nothing but the output. When it ends normally it has written all its
  text; otherwise the error is that of \<^verbatim>\<open>print\<close>.
\<close>

definition print_outcome :: "state \<Rightarrow> str \<Rightarrow> error option \<times> state \<Rightarrow> bool" where
  "print_outcome s x res =
     (en_keys (snd res) = en_keys s \<and> missing_report (snd res) = missing_report s \<and>
      opened (snd res) = opened s \<and>
      (fst res = None \<longrightarrow> stdout (snd res) = stdout s @ x) \<and>
      (\<forall>e. fst res = Some e \<longrightarrow> (\<exists>y. e = UnicodeEncodeError y)))"

text \<open>
  Directories for concrete runs: \<open>dir_fs names files\<close> lists \<open>names\<close> in
  \<^verbatim>\<open>../locales\<close> and holds the given files there; every other path raises.
\<close>

definition dir_fs :: "str list \<Rightarrow> (str \<times> str) list \<Rightarrow> filesystem" where
  "dir_fs names files =
     \<lparr>listdir = (\<lambda>p. if p = locales_dir then Inr names else Inl (OSError p)),
      read_text = (\<lambda>p. case map_of (map (\<lambda>(n, t). (file_path n, t)) files) p of
                         None \<Rightarrow> Inl (OSError p) | Some t \<Rightarrow> Inr t)\<rparr>"

definition abc_fs :: filesystem where
  "abc_fs = dir_fs [ascii ''fr.ts'', ascii ''en.ts'', ascii ''readme.md'', ascii ''sub'']
     [(ascii ''en.ts'', ascii ''a: 1'' @ [10] @ ascii ''b: 2'' @ [10] @ ascii ''c: 3'' @ [10]),
      (ascii ''fr.ts'', ascii ''a: x'' @ [10] @ ascii ''c: y'' @ [10]),
      (ascii ''readme.md'', ascii ''zzz: 1'' @ [10])]"

definition full_fs :: filesystem where
  "full_fs = dir_fs [ascii ''en.ts'', ascii ''fr.ts'', ascii ''notes.txt'']
     [(ascii ''en.ts'', ascii ''a: 1'' @ [10] @ ascii ''b: 2'' @ [10]),
      (ascii ''fr.ts'', ascii ''b: x'' @ [10] @ ascii ''a: y'' @ [10] @ ascii ''c: z'' @ [10])]"

definition empty_ref_fs :: filesystem where
  "empty_ref_fs = dir_fs [ascii ''fr.ts'', ascii ''en.ts'']
     [(ascii ''en.ts'', ascii ''export default {}'' @ [10]),
      (ascii ''fr.ts'', ascii ''a: x'' @ [10])]"

definition zeta_fs :: filesystem where
  "zeta_fs = dir_fs [ascii ''fr.ts'', ascii ''en.ts'']
     [(ascii ''en.ts'', ascii ''zeta: 1'' @ [10] @ ascii ''alpha: 2'' @ [10] @ ascii ''mu: 3'' @ [10]),
      (ascii ''fr.ts'', [])]"

definition broken_fs :: filesystem where
  "broken_fs = dir_fs [ascii ''fr.ts'', ascii ''de.ts'', ascii ''es.ts'']
     [(ascii ''en.ts'', ascii ''a: 1'' @ [10] @ ascii ''b: 2'' @ [10]),
      (ascii ''fr.ts'', ascii ''a: x'' @ [10]),
      (ascii ''es.ts'', ascii ''a: x'' @ [10])]"


text \<open>
  Two directories whose report an ASCII standard output cannot take: a file name with the
  letter U+00E9, and a key with it.
\<close>

definition accent_name_fs :: filesystem where
  "accent_name_fs = dir_fs [[233] @ ascii ''.ts'']
     [(ascii ''en.ts'', ascii ''a: 1'' @ [10]),
      ([233] @ ascii ''.ts'', [])]"

definition accent_fs :: filesystem where
  "accent_fs = dir_fs [ascii ''fr.ts'']
     [(ascii ''en.ts'', ascii ''a: 1'' @ [10] @ [233] @ ascii '': 2'' @ [10]),
      (ascii ''fr.ts'', [])]"

definition abc_more_fs :: filesystem where
  "abc_more_fs = dir_fs [ascii ''fr.ts'', ascii ''en.ts'', ascii ''readme.md'', ascii ''sub'']
     [(ascii ''en.ts'', ascii ''a: 1'' @ [10] @ ascii ''b: 2'' @ [10] @ ascii ''c: 3'' @ [10]),
      (ascii ''fr.ts'', ascii ''a: x'' @ [10] @ ascii ''c: y'' @ [10] @ ascii ''b: z'' @ [10] @ ascii ''extra: w'' @ [10])]"

section \<open>Key extraction\<close>

lemma colon_not_word: "\<not> is_word u 58"
  by (simp add: is_word_def)

lemma space_not_word: "db_disjoint u \<Longrightarrow> is_space u c \<Longrightarrow> \<not> is_word u c"
  by (auto simp: db_disjoint_def is_space_def is_word_def split: if_splits)

lemma match_items_length: "match_items u its pos s = Some ms \<Longrightarrow> length ms = length its"
  by (induction u its pos s arbitrary: ms rule: match_items.induct)
     (auto split: if_splits option.splits list.splits)

text \<open>A match of the key pattern has its four pieces, so \<open>ms ! 2\<close> is the group.\<close>

lemma re_search_length: "re_search u its pos s = Some ms \<Longrightarrow> length ms = length its"
  by (induction u its pos s rule: re_search.induct)
     (auto simp: match_items_length split: option.splits)

lemma match_star_word:
  "match_items u [Star WordChar, Lit 58] pos s =
     (if startswith (dropWhile (is_word u) s) [58]
      then Some [takeWhile (is_word u) s, [58]] else None)"
proof (induction s arbitrary: pos)
  case Nil
  show ?case by (simp add: startswith_def)
next
  case (Cons c cs)
  show ?case
  proof (cases "is_word u c")
    case True
    have "c \<noteq> 58" using True colon_not_word[of u] by metis
    with True show ?thesis by (simp add: Cons.IH startswith_def)
  next
    case False
    then show ?thesis by (simp add: startswith_def colon_not_word)
  qed
qed

lemma match_plus_word:
  "match_items u [Plus WordChar, Lit 58] pos s =
     (if takeWhile (is_word u) s \<noteq> [] \<and> startswith (dropWhile (is_word u) s) [58]
      then Some [takeWhile (is_word u) s, [58]] else None)"
  by (cases s) (simp_all add: match_star_word)

text \<open>
  Giving back whitespace never helps: the character given back is not a word character.
\<close>

lemma match_star_space:
  assumes "db_disjoint u"
  shows "match_items u [Star Whitespace, Plus WordChar, Lit 58] pos s =
     (case scan_key u s of None \<Rightarrow> None
      | Some w \<Rightarrow> Some [takeWhile (is_space u) s, w, [58]])"
proof (induction s arbitrary: pos)
  case Nil
  show ?case by (simp add: scan_key_def)
next
  case (Cons c cs)
  show ?case
  proof (cases "is_space u c")
    case True
    then have "\<not> is_word u c" using assms space_not_word by blast
    with True show ?thesis
      by (simp add: Cons.IH scan_key_def split: option.splits)
  next
    case False
    then show ?thesis
      by (simp add: match_plus_word scan_key_def del: match_items.simps(8))
  qed
qed

lemma re_search_caret_later: "0 < pos \<Longrightarrow> re_search u (Caret # its) pos s = None"
  by (induction s arbitrary: pos) simp_all

lemma re_search_key_pattern:
  assumes "db_disjoint u"
  shows "re_search u key_pattern 0 line =
     (case scan_key u line of None \<Rightarrow> None
      | Some w \<Rightarrow> Some [[], takeWhile (is_space u) line, w, [58]])"
proof (cases line)
  case Nil
  then show ?thesis by (simp add: key_pattern_def scan_key_def)
next
  case (Cons c cs)
  have "re_search u (Caret # [Star Whitespace, Plus WordChar, Lit 58]) (Suc 0) cs = None"
    by (rule re_search_caret_later) simp
  then show ?thesis
    unfolding key_pattern_def Cons
    by (simp add: match_star_space[OF assms] del: match_items.simps(6) split: option.splits)
qed

lemma search_key_scan: "db_disjoint u \<Longrightarrow> search_key u line = scan_key u line"
  by (simp add: search_key_def re_search_key_pattern split: option.splits)

lemma scan_key_declares:
  assumes "scan_key u line = Some w"
  shows "declares_key u line w"
proof -
  let ?r = "dropWhile (is_space u) line"
  from assms have w: "w = takeWhile (is_word u) ?r" and ne: "w \<noteq> []"
    and col: "startswith (dropWhile (is_word u) ?r) [58]"
    by (auto simp: scan_key_def Let_def split: if_splits)
  from col obtain rest where rest: "dropWhile (is_word u) ?r = 58 # rest"
    by (cases "dropWhile (is_word u) ?r") (auto simp: startswith_def)
  have "line = takeWhile (is_space u) line @ ?r" by simp
  also have "?r = w @ dropWhile (is_word u) ?r" unfolding w by simp
  finally have "line = takeWhile (is_space u) line @ w @ 58 # rest" using rest by simp
  moreover have "list_all (is_space u) (takeWhile (is_space u) line)"
    by (simp add: list_all_iff) (meson set_takeWhileD)
  moreover have "list_all (is_word u) w"
    unfolding w by (simp add: list_all_iff) (meson set_takeWhileD)
  ultimately show ?thesis using ne unfolding declares_key_def by blast
qed

lemma declares_scan_key:
  assumes "db_disjoint u" and "declares_key u line w"
  shows "scan_key u line = Some w"
proof -
  from assms(2) obtain ws rest where line: "line = ws @ w @ 58 # rest"
    and ws: "list_all (is_space u) ws" and ne: "w \<noteq> []" and w: "list_all (is_word u) w"
    unfolding declares_key_def by blast
  from ne obtain c cs where wc: "w = c # cs" by (cases w) auto
  with w have "is_word u c" by simp
  then have "\<not> is_space u c" using assms(1) space_not_word by blast
  then have r: "dropWhile (is_space u) line = w @ 58 # rest"
    unfolding line wc using ws by (simp add: dropWhile_append3 list_all_iff)
  have t: "takeWhile (is_word u) (w @ 58 # rest) = w"
    using w colon_not_word by (simp add: takeWhile_tail list_all_iff)
  have d: "dropWhile (is_word u) (w @ 58 # rest) = 58 # rest"
    using w colon_not_word by (simp add: dropWhile_append3 list_all_iff)
  show ?thesis using ne by (simp add: scan_key_def r t d startswith_def)
qed

lemma search_key_iff:
  "db_disjoint u \<Longrightarrow> search_key u line = Some w \<longleftrightarrow> declares_key u line w"
  using search_key_scan scan_key_declares declares_scan_key by metis

lemma fold_add_key:
  "fold (add_key u) ls K = K \<union> {w. \<exists>line\<in>set ls. search_key u line = Some w}"
  by (induction ls arbitrary: K) (auto simp: add_key_def split: option.splits)

lemma keys_of_text_eq:
  "keys_of_text u t = {w. \<exists>line\<in>set (text_lines t). search_key u line = Some w}"
  by (simp add: keys_of_text_def fold_add_key)

lemma finite_keys_of_text: "finite (keys_of_text u t)"
proof -
  have "finite (fold (add_key u) ls K)" if "finite K" for ls K
    using that by (induction ls arbitrary: K) (auto simp: add_key_def split: option.splits)
  then show ?thesis by (simp add: keys_of_text_def)
qed

lemma keys_of_sample_text:
  "keys_of_text u sample_text = {ascii ''foo'', ascii ''baz'', ascii ''123abc''}"
  by (simp add: keys_of_text_def sample_text_def text_lines_def ascii_def add_key_def
      search_key_def key_pattern_def is_space_def is_word_def insert_commute)

lemma fst_extract_keys:
  "read_text fs path = Inr t \<Longrightarrow> fst (extract_keys u fs path s) = Inr (keys_of_text u t)"
  by (simp add: extract_keys_def Let_def)

text \<open>
  C1. For a file that can be read, \<open>extract_keys\<close> returns exactly the set of the word
  runs \<open>w\<close> such that some line of the file is leading whitespace, then \<open>w\<close>, then a colon.
  A line declares at most one key. For the file with the lines \<^verbatim>\<open>  foo: bar\<close>,
  \<^verbatim>\<open>baz: qux\<close>, \<^verbatim>\<open>not_a_key line\<close>, \<^verbatim>\<open>  123abc: x\<close> the result is
  \<open>{foo, baz, 123abc}\<close>.
\<close>

theorem extract_keys_spec:
  assumes "db_disjoint u" and "read_text fs path = Inr t"
  shows "fst (extract_keys u fs path s) =
           Inr {w. \<exists>line\<in>set (text_lines t). declares_key u line w}
         \<and> (\<forall>line w w'. declares_key u line w \<and> declares_key u line w' \<longrightarrow> w = w')
         \<and> (t = sample_text \<longrightarrow>
              fst (extract_keys u fs path s) =
                Inr {ascii ''foo'', ascii ''baz'', ascii ''123abc''})"
proof -
  have "keys_of_text u t = {w. \<exists>line\<in>set (text_lines t). declares_key u line w}"
    using assms(1) by (simp add: keys_of_text_eq search_key_iff)
  then have a: "fst (extract_keys u fs path s) =
      Inr {w. \<exists>line\<in>set (text_lines t). declares_key u line w}"
    using assms(2) by (simp add: fst_extract_keys)
  have b: "w = w'" if "declares_key u line w" and "declares_key u line w'" for line w w'
    using declares_scan_key[OF assms(1) that(1)] declares_scan_key[OF assms(1) that(2)]
    by simp
  have c: "fst (extract_keys u fs path s) =
      Inr {ascii ''foo'', ascii ''baz'', ascii ''123abc''}" if "t = sample_text"
    using that assms(2) by (simp add: fst_extract_keys keys_of_sample_text)
  from a b c show ?thesis by blast
qed

theorem extract_keys_spec_witness:
  "db_disjoint ascii_db \<and> read_text sample_fs en_file = Inr sample_text \<and>
   fst (extract_keys ascii_db sample_fs en_file init_state) =
     Inr {ascii ''foo'', ascii ''baz'', ascii ''123abc''}"
proof -
  have d: "db_disjoint ascii_db" by (simp add: db_disjoint_def ascii_db_def)
  have r: "read_text sample_fs en_file = Inr sample_text" by (simp add: sample_fs_def)
  from extract_keys_spec[OF d r, of init_state]
  have "fst (extract_keys ascii_db sample_fs en_file init_state) =
          Inr {ascii ''foo'', ascii ''baz'', ascii ''123abc''}"
    by blast
  with d r show ?thesis by blast
qed

section \<open>The dictionary and the printed text\<close>

lemma map_of_dict_set: "map_of (dict_set d k v) = (map_of d)(k \<mapsto> v)"
  by (induction d) (auto simp: fun_eq_iff)

lemma keys_dict_set: "fst ` set (dict_set d k v) = insert k (fst ` set d)"
  by (simp add: dom_map_of_conv_image_fst[symmetric] map_of_dict_set)

lemma distinct_dict_set: "distinct (map fst d) \<Longrightarrow> distinct (map fst (dict_set d k v))"
proof (induction d)
  case Nil
  show ?case by simp
next
  case (Cons p d)
  obtain k' v' where p: "p = (k', v')" by (cases p)
  from Cons show ?case
    unfolding p by (auto simp: keys_dict_set)
qed

lemma values_dict_set: "(k', v') \<in> set (dict_set d k v) \<Longrightarrow> (k', v') \<in> set d \<or> (k' = k \<and> v' = v)"
  by (induction d) (auto split: if_splits)

lemma print_outcome: "print_outcome s (x @ [10]) (print u x s)"
  by (simp add: print_outcome_def print_def)

lemma print_ascii:
  "\<forall>c\<in>set x. c < 128 \<Longrightarrow> print u x s = (None, s\<lparr>stdout := stdout s @ x @ [10]\<rparr>)"
  by (simp add: print_def list_all_iff encodable_def)

lemma print_outcome_seq:
  assumes "print_outcome s x (r1, s1)" and "r1 = None \<Longrightarrow> print_outcome s1 y res"
  shows "print_outcome s (x @ y)
           (case (r1, s1) of (Some e, s') \<Rightarrow> (Some e, s') | (None, s') \<Rightarrow> res)"
  using assms by (cases r1) (auto simp: print_outcome_def)

lemma print_keys_outcome:
  "print_outcome s (concat (map (\<lambda>key. ascii '' - '' @ key @ [10]) ks)) (print_keys u ks s)"
proof (induction ks arbitrary: s)
  case Nil
  show ?case by (simp add: print_outcome_def)
next
  case (Cons k ks)
  obtain r1 s1 where p: "print u (ascii '' - '' @ k) s = (r1, s1)"
    by (cases "print u (ascii '' - '' @ k) s")
  have "print_outcome s ((ascii '' - '' @ k @ [10]) @
          concat (map (\<lambda>key. ascii '' - '' @ key @ [10]) ks))
          (case (r1, s1) of (Some e, s') \<Rightarrow> (Some e, s') | (None, s') \<Rightarrow> print_keys u ks s1)"
    using print_outcome[of s "ascii '' - '' @ k" u] Cons.IH[of s1]
    by (intro print_outcome_seq) (simp_all add: p)
  then show ?case by (simp add: p split: option.splits)
qed

lemma print_section_outcome: "print_outcome s (section_text entry) (print_section u entry s)"
proof -
  let ?h = "[10] @ ascii ''Missing keys in '' @ fst entry @ ascii '':''"
  obtain r1 s1 where p: "print u ?h s = (r1, s1)" by (cases "print u ?h s")
  have o1: "print_outcome s (?h @ [10]) (r1, s1)"
    using print_outcome[of s ?h u] unfolding p .
  have o2: "r1 = None \<Longrightarrow> print_outcome s1
          (concat (map (\<lambda>key. ascii '' - '' @ key @ [10]) (sorted_list_of_set (snd entry))))
          (print_keys u (sorted_list_of_set (snd entry)) s1)"
    by (rule print_keys_outcome)
  have "print_outcome s ((?h @ [10]) @
          concat (map (\<lambda>key. ascii '' - '' @ key @ [10]) (sorted_list_of_set (snd entry))))
          (case (r1, s1) of (Some e, s') \<Rightarrow> (Some e, s')
           | (None, s') \<Rightarrow> print_keys u (sorted_list_of_set (snd entry)) s1)"
    using o1 o2 by (rule print_outcome_seq)
  then show ?thesis
    unfolding print_section_def p section_text_def by (cases r1) simp_all
qed

lemma print_sections_outcome:
  "print_outcome s (concat (map section_text r)) (print_sections u r s)"
proof (induction r arbitrary: s)
  case Nil
  show ?case by (simp add: print_outcome_def)
next
  case (Cons entry r)
  obtain r1 s1 where p: "print_section u entry s = (r1, s1)"
    by (cases "print_section u entry s")
  have "print_outcome s (section_text entry @ concat (map section_text r))
          (case (r1, s1) of (Some e, s') \<Rightarrow> (Some e, s') | (None, s') \<Rightarrow> print_sections u r s1)"
    using print_section_outcome[of s entry u] Cons.IH[of s1]
    by (intro print_outcome_seq) (simp_all add: p)
  then show ?case by (simp add: p split: option.splits)
qed

lemma render_outcome:
  "print_outcome s
     (if missing_report s = [] then all_good else concat (map section_text (missing_report s)))
     (render u s)"
  using print_outcome[of s "ascii ''All good! No missing keys found.''" u]
    print_sections_outcome[of s "missing_report s" u]
  by (simp add: render_def all_good_def)

lemma render_empty:
  "missing_report s = [] \<Longrightarrow> render u s = (None, s\<lparr>stdout := stdout s @ all_good\<rparr>)"
  by (simp add: render_def all_good_def print_ascii ascii_def)

lemma str_nat_ascii: "\<forall>c\<in>set (str_nat n). c < 128"
proof (induction n rule: str_nat.induct)
  case (1 n)
  show ?case
  proof (cases "n < 10")
    case True
    then show ?thesis by (subst str_nat.simps) simp
  next
    case False
    have "n mod 10 < 10" by simp
    then have "48 + n mod 10 < 128" by linarith
    with 1 False show ?thesis by (subst str_nat.simps) simp
  qed
qed

lemma print_found:
  "print u (ascii ''Found '' @ str_nat n @ ascii '' keys in en.ts'') s =
     (None, s\<lparr>stdout := stdout s @ ascii ''Found '' @ str_nat n @ ascii '' keys in en.ts'' @ [10]\<rparr>)"
proof -
  have "\<forall>c\<in>set (ascii ''Found '' @ str_nat n @ ascii '' keys in en.ts''). c < 128"
    using str_nat_ascii[of n] by (auto simp: ascii_def)
  then show ?thesis by (simp add: print_ascii)
qed

section \<open>The loop over the directory\<close>

lemma extract_keys_ok:
  "read_text fs path = Inr t \<Longrightarrow>
   extract_keys u fs path s = (Inr (keys_of_text u t), s\<lparr>opened := opened s @ [path]\<rparr>)"
  by (simp add: extract_keys_def Let_def)

lemma extract_keys_fail:
  "read_text fs path = Inl e \<Longrightarrow>
   extract_keys u fs path s = (Inl e, s\<lparr>opened := opened s @ [path]\<rparr>)"
  by (simp add: extract_keys_def Let_def)

lemma scan_step_skipped: "skipped fn \<Longrightarrow> scan u fs (fn # rest) s = scan u fs rest s"
  by simp

lemma scan_step_fail:
  "\<not> skipped fn \<Longrightarrow> read_text fs (file_path fn) = Inl e \<Longrightarrow>
   scan u fs (fn # rest) s = (Some e, s\<lparr>opened := opened s @ [file_path fn]\<rparr>)"
  by (simp add: extract_keys_fail)

lemma scan_step_ok:
  "\<not> skipped fn \<Longrightarrow> read_text fs (file_path fn) = Inr t \<Longrightarrow>
   scan u fs (fn # rest) s = scan u fs rest (after_file fn (keys_of_text u t) s)"
  by (simp add: extract_keys_ok Let_def after_file_def)

declare scan.simps(2) [simp del]

lemma after_file_fields [simp]:
  "en_keys (after_file fn keys s) = en_keys s"
  "stdout (after_file fn keys s) = stdout s"
  "opened (after_file fn keys s) = opened s @ [file_path fn]"
  "missing_report (after_file fn keys s) =
     (if en_keys s - keys \<noteq> {} then dict_set (missing_report s) fn (en_keys s - keys)
      else missing_report s)"
  by (simp_all add: after_file_def)

text \<open>Induction over a run of the loop: one case per way through its body.\<close>

lemma scan_induct [consumes 1, case_names Nil Skip Fail Ok]:
  assumes run: "scan u fs names s = (r, s')"
    and nil: "\<And>s. P [] s None s"
    and skip: "\<And>fn rest s r s'. skipped fn \<Longrightarrow> scan u fs rest s = (r, s') \<Longrightarrow>
                 P rest s r s' \<Longrightarrow> P (fn # rest) s r s'"
    and fail: "\<And>fn rest s e. \<not> skipped fn \<Longrightarrow> read_text fs (file_path fn) = Inl e \<Longrightarrow>
                 P (fn # rest) s (Some e) (s\<lparr>opened := opened s @ [file_path fn]\<rparr>)"
    and ok: "\<And>fn rest s t r s'. \<not> skipped fn \<Longrightarrow> read_text fs (file_path fn) = Inr t \<Longrightarrow>
                 scan u fs rest (after_file fn (keys_of_text u t) s) = (r, s') \<Longrightarrow>
                 P rest (after_file fn (keys_of_text u t) s) r s' \<Longrightarrow> P (fn # rest) s r s'"
  shows "P names s r s'"
  using run
proof (induction names arbitrary: s)
  case Nil
  then show ?case using nil by simp
next
  case (Cons fn rest)
  show ?case
  proof (cases "skipped fn")
    case True
    with Cons.prems have "scan u fs rest s = (r, s')" by (simp add: scan_step_skipped)
    with True Cons.IH show ?thesis by (blast intro: skip)
  next
    case False
    show ?thesis
    proof (cases "read_text fs (file_path fn)")
      case (Inl e)
      with False Cons.prems have "r = Some e" "s' = s\<lparr>opened := opened s @ [file_path fn]\<rparr>"
        by (simp_all add: scan_step_fail)
      with False Inl show ?thesis using fail by blast
    next
      case (Inr t)
      with False Cons.prems
      have "scan u fs rest (after_file fn (keys_of_text u t) s) = (r, s')"
        by (simp add: scan_step_ok)
      with False Inr Cons.IH show ?thesis by (blast intro: ok)
    qed
  qed
qed

lemma scan_keeps:
  "scan u fs names s = (r, s') \<Longrightarrow> en_keys s' = en_keys s \<and> stdout s' = stdout s"
  by (induction rule: scan_induct) simp_all

lemma scan_opened_any:
  "scan u fs names s = (r, s') \<Longrightarrow>
   \<exists>k. opened s' = opened s @ take k (map file_path (candidates names))"
proof (induction rule: scan_induct)
  case (Nil s)
  show ?case by simp
next
  case (Skip fn rest s r s')
  then show ?case by (simp add: candidates_def)
next
  case (Fail fn rest s e)
  have "opened (s\<lparr>opened := opened s @ [file_path fn]\<rparr>) =
        opened s @ take 1 (map file_path (candidates (fn # rest)))"
    using Fail by (simp add: candidates_def)
  then show ?case by blast
next
  case (Ok fn rest s t r s')
  then obtain k where "opened s' = opened s @ [file_path fn] @ take k (map file_path (candidates rest))"
    by auto
  then have "opened s' = opened s @ take (Suc k) (map file_path (candidates (fn # rest)))"
    using Ok by (simp add: candidates_def)
  then show ?case by blast
qed

lemma scan_opened:
  "scan u fs names s = (r, s') \<Longrightarrow> r = None \<Longrightarrow>
   opened s' = opened s @ map file_path (candidates names)"
  by (induction rule: scan_induct) (simp_all add: candidates_def)

lemma scan_succeeds:
  "\<forall>fn\<in>set names. \<not> skipped fn \<longrightarrow> readable fs (file_path fn) \<Longrightarrow>
   fst (scan u fs names s) = None"
proof (induction names arbitrary: s)
  case Nil
  show ?case by simp
next
  case (Cons fn rest)
  show ?case
  proof (cases "skipped fn")
    case True
    with Cons show ?thesis by (simp add: scan_step_skipped)
  next
    case False
    with Cons.prems obtain t where "read_text fs (file_path fn) = Inr t"
      by (auto simp: readable_def split: sum.splits)
    with False Cons show ?thesis by (simp add: scan_step_ok)
  qed
qed

lemma scan_None_readable:
  "scan u fs names s = (r, s') \<Longrightarrow> r = None \<Longrightarrow>
   \<forall>fn\<in>set names. \<not> skipped fn \<longrightarrow> readable fs (file_path fn)"
  by (induction rule: scan_induct) (auto simp: readable_def)

lemma scan_report:
  "scan u fs names s = (r, s') \<Longrightarrow> r = None \<Longrightarrow>
   map_of (missing_report s') =
     (\<lambda>fn. if fn \<in> set (candidates names) \<and> missing_of u fs (en_keys s) fn \<noteq> {}
           then Some (missing_of u fs (en_keys s) fn)
           else map_of (missing_report s) fn)"
proof (induction rule: scan_induct)
  case (Nil s)
  show ?case by (simp add: candidates_def)
next
  case (Skip fn rest s r s')
  then show ?case by (auto simp: candidates_def fun_eq_iff)
next
  case (Fail fn rest s e)
  then show ?case by simp
next
  case (Ok fn rest s t r s')
  have m: "missing_of u fs (en_keys s) fn = en_keys s - keys_of_text u t"
    using Ok by (simp add: missing_of_def file_keys_def)
  from Ok show ?case
    by (auto simp: candidates_def fun_eq_iff map_of_dict_set m)
qed

lemma scan_distinct:
  "scan u fs names s = (r, s') \<Longrightarrow> distinct (map fst (missing_report s)) \<Longrightarrow>
   distinct (map fst (missing_report s'))"
  by (induction rule: scan_induct) (simp_all add: distinct_dict_set)

lemma scan_finite:
  "scan u fs names s = (r, s') \<Longrightarrow> finite (en_keys s) \<Longrightarrow>
   \<forall>e\<in>set (missing_report s). finite (snd e) \<Longrightarrow>
   \<forall>e\<in>set (missing_report s'). finite (snd e)"
proof (induction rule: scan_induct)
  case (Ok fn rest s t r s')
  have "\<forall>e\<in>set (missing_report (after_file fn (keys_of_text u t) s)). finite (snd e)"
    using Ok.prems by (auto dest!: values_dict_set)
  with Ok show ?case by simp
qed simp_all

lemma scan_append:
  "scan u fs pre s = (None, s1) \<Longrightarrow> scan u fs (pre @ rest) s = scan u fs rest s1"
proof (induction pre arbitrary: s)
  case Nil
  then show ?case by simp
next
  case (Cons fn pre)
  show ?case
  proof (cases "skipped fn")
    case True
    with Cons show ?thesis by (simp add: scan_step_skipped)
  next
    case False
    show ?thesis
    proof (cases "read_text fs (file_path fn)")
      case (Inl e)
      with False Cons.prems show ?thesis by (simp add: scan_step_fail)
    next
      case (Inr t)
      with False Cons show ?thesis by (simp add: scan_step_ok)
    qed
  qed
qed


section \<open>The whole run\<close>

lemma run_ref_fail:
  "read_text fs en_file = Inl e \<Longrightarrow> run u fs = (Some e, init_state\<lparr>opened := [en_file]\<rparr>)"
  by (simp add: run_def extract_keys_fail init_state_def)

lemma run_dir_fail:
  "read_text fs en_file = Inr t \<Longrightarrow> listdir fs locales_dir = Inl e \<Longrightarrow>
   run u fs = (Some e, after_ref (keys_of_text u t))"
  by (simp add: run_def extract_keys_ok init_state_def after_ref_def found_line_def print_found)

lemma run_scan:
  "read_text fs en_file = Inr t \<Longrightarrow> listdir fs locales_dir = Inr names \<Longrightarrow>
   run u fs =
     (case scan u fs names (after_ref (keys_of_text u t)) of
        (Some e, s4) \<Rightarrow> (Some e, s4)
      | (None, s4) \<Rightarrow> render u s4)"
  by (simp add: run_def extract_keys_ok init_state_def after_ref_def found_line_def print_found)

lemma run_None:
  assumes "run u fs = (None, s)"
  obtains t names s4 where "read_text fs en_file = Inr t" "listdir fs locales_dir = Inr names"
    "scan u fs names (after_ref (keys_of_text u t)) = (None, s4)" "render u s4 = (None, s)"
proof (cases "read_text fs en_file")
  case (Inl e)
  with assms show ?thesis by (simp add: run_ref_fail)
next
  case (Inr t)
  show ?thesis
  proof (cases "listdir fs locales_dir")
    case (Inl e)
    with Inr assms show ?thesis by (simp add: run_dir_fail)
  next
    case names: (Inr names)
    obtain r s4 where sc: "scan u fs names (after_ref (keys_of_text u t)) = (r, s4)"
      by (cases "scan u fs names (after_ref (keys_of_text u t))")
    with assms Inr names have "r = None" "render u s4 = (None, s)"
      by (auto simp: run_scan split: option.splits)
    with sc Inr names that show ?thesis by blast
  qed
qed

lemma after_ref_fields [simp]:
  "en_keys (after_ref K) = K" "missing_report (after_ref K) = []"
  "stdout (after_ref K) = found_line K" "opened (after_ref K) = [en_file]"
  by (simp_all add: after_ref_def)

lemma render_keeps:
  "render u s = (r, s') \<Longrightarrow>
   en_keys s' = en_keys s \<and> missing_report s' = missing_report s \<and> opened s' = opened s"
  using render_outcome[of s u] by (simp add: print_outcome_def)

lemma render_None:
  "render u s = (None, s') \<Longrightarrow>
   stdout s' = stdout s @
      (if missing_report s = [] then all_good else concat (map section_text (missing_report s)))"
  using render_outcome[of s u] by (simp add: print_outcome_def)

lemma render_error: "render u s = (Some e, s') \<Longrightarrow> \<exists>y. e = UnicodeEncodeError y"
  using render_outcome[of s u] by (simp add: print_outcome_def)

text \<open>Paths: joining with the directory is injective, and no candidate is the reference.\<close>

lemma file_path_eq:
  "file_path fn = (if startswith fn [47] then fn else ascii ''../locales/'' @ fn)"
  by (simp add: path_join_def locales_dir_def ascii_def endswith_def)

lemma file_path_inj: "file_path a = file_path b \<Longrightarrow> a = b"
  by (auto simp: file_path_eq startswith_def ascii_def split: if_splits)

lemma en_file_eq: "en_file = file_path (ascii ''en.ts'')"
  by (simp add: en_file_def)

lemma en_file_not_candidate: "\<not> skipped fn \<Longrightarrow> file_path fn \<noteq> en_file"
  unfolding en_file_eq using file_path_inj by (auto simp: skipped_def)

lemma skipped_iff:
  "\<not> skipped fn \<longleftrightarrow> endswith fn (ascii ''.ts'') \<and> fn \<noteq> ascii ''en.ts''"
  by (auto simp: skipped_def)

lemma candidates_filter:
  "candidates names = filter (\<lambda>fn. endswith fn (ascii ''.ts'') \<and> fn \<noteq> ascii ''en.ts'') names"
  by (simp add: candidates_def skipped_iff)

lemma scan_report_keys:
  "scan u fs names s = (r, s') \<Longrightarrow>
   fst ` set (missing_report s') \<subseteq> fst ` set (missing_report s) \<union> set (candidates names)"
proof (induction rule: scan_induct)
  case (Ok fn rest s t r s')
  then show ?case by (auto simp: candidates_def keys_dict_set split: if_splits)
qed (auto simp: candidates_def)

lemma dict_set_new: "k \<notin> fst ` set d \<Longrightarrow> dict_set d k v = d @ [(k, v)]"
  by (induction d) auto

lemma scan_order:
  "scan u fs names s = (r, s') \<Longrightarrow> r = None \<Longrightarrow> distinct names \<Longrightarrow>
   set names \<inter> fst ` set (missing_report s) = {} \<Longrightarrow>
   missing_report s' = missing_report s @
     map (\<lambda>fn. (fn, missing_of u fs (en_keys s) fn))
       (filter (\<lambda>fn. missing_of u fs (en_keys s) fn \<noteq> {}) (candidates names))"
proof (induction rule: scan_induct)
  case (Nil s)
  show ?case by (simp add: candidates_def)
next
  case (Skip fn rest s r s')
  then show ?case by (simp add: candidates_def)
next
  case (Fail fn rest s e)
  then show ?case by simp
next
  case (Ok fn rest s t r s')
  have m: "missing_of u fs (en_keys s) fn = en_keys s - keys_of_text u t"
    using Ok by (simp add: missing_of_def file_keys_def)
  have new: "fn \<notin> fst ` set (missing_report s)" using Ok.prems by auto
  have "set rest \<inter> fst ` set (missing_report (after_file fn (keys_of_text u t) s)) = {}"
    using Ok.prems by (auto simp: keys_dict_set)
  with Ok have "missing_report s' = missing_report (after_file fn (keys_of_text u t) s) @
     map (\<lambda>fn. (fn, missing_of u fs (en_keys s) fn))
       (filter (\<lambda>fn. missing_of u fs (en_keys s) fn \<noteq> {}) (candidates rest))"
    by simp
  then show ?case using Ok(1) new by (simp add: candidates_def m dict_set_new)
qed

section \<open>The report and the output\<close>

lemma run_decompose:
  assumes "run u fs = (r, s)" and "read_text fs en_file = Inr t"
    and "listdir fs locales_dir = Inr names"
  obtains r4 s4 where "scan u fs names (after_ref (keys_of_text u t)) = (r4, s4)"
    and "en_keys s = en_keys s4" and "missing_report s = missing_report s4"
    and "opened s = opened s4"
    and "r4 \<noteq> None \<longrightarrow> r = r4 \<and> s = s4"
    and "r4 = None \<longrightarrow> render u s4 = (r, s)"
    and "r = None \<longrightarrow> r4 = None"
proof -
  obtain r4 s4 where sc: "scan u fs names (after_ref (keys_of_text u t)) = (r4, s4)"
    by (cases "scan u fs names (after_ref (keys_of_text u t))")
  show ?thesis
  proof (cases r4)
    case None
    with sc assms have rn: "render u s4 = (r, s)" by (simp add: run_scan)
    from render_keeps[OF rn] sc None rn that show ?thesis by simp
  next
    case (Some e)
    with sc assms have "r = Some e" "s = s4" by (simp_all add: run_scan)
    with sc Some that show ?thesis by simp
  qed
qed

lemma run_None_at:
  assumes "run u fs = (None, s)" and "read_text fs en_file = Inr t"
    and "listdir fs locales_dir = Inr names"
  obtains s4 where "scan u fs names (after_ref (keys_of_text u t)) = (None, s4)"
    and "en_keys s = en_keys s4" and "missing_report s = missing_report s4"
    and "opened s = opened s4"
    and "stdout s = stdout s4 @
      (if missing_report s = [] then all_good else concat (map section_text (missing_report s)))"
proof -
  from assms obtain r4 s4 where sc: "scan u fs names (after_ref (keys_of_text u t)) = (r4, s4)"
    and f: "en_keys s = en_keys s4" "missing_report s = missing_report s4" "opened s = opened s4"
    and rn: "r4 = None \<longrightarrow> render u s4 = (None, s)"
    and n': "None = (None::error option) \<longrightarrow> r4 = None"
    by (rule run_decompose)
  from n' have n: "r4 = None" by simp
  with rn have "render u s4 = (None, s)" by simp
  from render_None[OF this] f sc n that show ?thesis by simp
qed

lemma scan_state_ok:
  assumes "scan u fs names (after_ref K) = (None, s4)"
  shows "en_keys s4 = K" and "stdout s4 = found_line K"
    and "opened s4 = en_file # map file_path (candidates names)"
    and "distinct (map fst (missing_report s4))"
    and "map_of (missing_report s4) =
           (\<lambda>fn. if fn \<in> set (candidates names) \<and> missing_of u fs K fn \<noteq> {}
                 then Some (missing_of u fs K fn) else None)"
  using scan_keeps[OF assms] scan_opened[OF assms] scan_distinct[OF assms] scan_report[OF assms]
  by (simp_all add: fun_eq_iff)

lemma report_membership:
  assumes "scan u fs names (after_ref K) = (None, s4)"
  shows "(fn, m) \<in> set (missing_report s4) \<longleftrightarrow>
         fn \<in> set (candidates names) \<and> m = missing_of u fs K fn \<and> m \<noteq> {}"
proof -
  have "(fn, m) \<in> set (missing_report s4) \<longleftrightarrow> map_of (missing_report s4) fn = Some m"
    using scan_state_ok(4)[OF assms] by simp
  then show ?thesis unfolding scan_state_ok(5)[OF assms] by auto
qed

lemma reported_eq:
  assumes "scan u fs names (after_ref K) = (None, s4)" and "missing_report s = missing_report s4"
  shows "reported s fn = (if fn \<in> set (candidates names) then missing_of u fs K fn else {})"
  using scan_state_ok(5)[OF assms(1)] by (simp add: reported_def assms(2))

text \<open>
  C2. In a run that ends normally, a file is recorded in \<open>missing_report\<close> exactly when it
  is a candidate of the listing and the difference \<open>en_keys - keys\<close> (the keys of the
  reference file that are not keys of the candidate) is not empty, and it is recorded with
  that difference. With reference keys \<open>{a, b, c}\<close> and candidate keys \<open>{a, c}\<close> the
  entry is \<open>{b}\<close> and its section lists the line \<^verbatim>\<open> - b\<close> and no other key.
\<close>

theorem missing_report_spec:
  assumes "run u fs = (None, s)" and "read_text fs en_file = Inr t"
    and "listdir fs locales_dir = Inr names"
  shows "(\<forall>fn m. (fn, m) \<in> set (missing_report s) \<longleftrightarrow>
            fn \<in> set (candidates names) \<and>
            m = keys_of_text u t - file_keys u fs (file_path fn) \<and> m \<noteq> {})
       \<and> (\<forall>fn\<in>set (candidates names).
            keys_of_text u t = {ascii ''a'', ascii ''b'', ascii ''c''} \<and>
            file_keys u fs (file_path fn) = {ascii ''a'', ascii ''c''} \<longrightarrow>
            reported s fn = {ascii ''b''} \<and>
            section_text (fn, reported s fn) =
              [10] @ ascii ''Missing keys in '' @ fn @ ascii '':'' @ [10] @
              ascii '' - b'' @ [10])"
proof -
  from assms obtain s4 where sc: "scan u fs names (after_ref (keys_of_text u t)) = (None, s4)"
    and rep: "missing_report s = missing_report s4"
    by (rule run_None_at)
  have a: "(fn, m) \<in> set (missing_report s) \<longleftrightarrow>
            fn \<in> set (candidates names) \<and>
            m = keys_of_text u t - file_keys u fs (file_path fn) \<and> m \<noteq> {}" for fn m
    using report_membership[OF sc] by (simp add: rep missing_of_def)
  have b: "reported s fn = {ascii ''b''} \<and>
            section_text (fn, reported s fn) =
              [10] @ ascii ''Missing keys in '' @ fn @ ascii '':'' @ [10] @
              ascii '' - b'' @ [10]"
    if "fn \<in> set (candidates names)"
      and "keys_of_text u t = {ascii ''a'', ascii ''b'', ascii ''c''}"
      and "file_keys u fs (file_path fn) = {ascii ''a'', ascii ''c''}" for fn
  proof -
    have "reported s fn = {ascii ''a'', ascii ''b'', ascii ''c''} - {ascii ''a'', ascii ''c''}"
      using that by (simp add: reported_eq[OF sc rep] missing_of_def)
    also have "\<dots> = {ascii ''b''}" by (auto simp: ascii_def)
    finally have r: "reported s fn = {ascii ''b''}" .
    show ?thesis by (simp add: r section_text_def ascii_def)
  qed
  from a b show ?thesis by blast
qed

theorem missing_report_spec_witness:
  "run ascii_db abc_fs = (None, snd (run ascii_db abc_fs)) \<and>
   ascii ''fr.ts'' \<in> set (candidates [ascii ''fr.ts'', ascii ''en.ts'', ascii ''readme.md'', ascii ''sub'']) \<and>
   set (missing_report (snd (run ascii_db abc_fs))) = {(ascii ''fr.ts'', {ascii ''b''})} \<and>
   reported (snd (run ascii_db abc_fs)) (ascii ''fr.ts'') = {ascii ''b''}"
proof -
  let ?t = "ascii ''a: 1'' @ [10] @ ascii ''b: 2'' @ [10] @ ascii ''c: 3'' @ [10]"
  let ?names = "[ascii ''fr.ts'', ascii ''en.ts'', ascii ''readme.md'', ascii ''sub'']"
  have r: "run ascii_db abc_fs = (None, snd (run ascii_db abc_fs))"
    by (rule prod_eqI; code_simp)
  have t: "read_text abc_fs en_file = Inr ?t" by code_simp
  have l: "listdir abc_fs locales_dir = Inr ?names" by code_simp
  have c: "ascii ''fr.ts'' \<in> set (candidates ?names)" by code_simp
  have k: "keys_of_text ascii_db ?t = {ascii ''a'', ascii ''b'', ascii ''c''}" by code_simp
  have f: "file_keys ascii_db abc_fs (file_path (ascii ''fr.ts'')) = {ascii ''a'', ascii ''c''}"
    by code_simp
  have m: "set (missing_report (snd (run ascii_db abc_fs))) = {(ascii ''fr.ts'', {ascii ''b''})}"
    by code_simp
  from missing_report_spec[OF r t l] c k f
  have "reported (snd (run ascii_db abc_fs)) (ascii ''fr.ts'') = {ascii ''b''}" by blast
  with r c m show ?thesis by blast
qed

lemma scan_total:
  assumes "\<forall>fn\<in>set (candidates names). readable fs (file_path fn)"
  obtains s4 where "scan u fs names s = (None, s4)"
proof -
  have "\<forall>fn\<in>set names. \<not> skipped fn \<longrightarrow> readable fs (file_path fn)"
    using assms by (simp add: candidates_def)
  then have "fst (scan u fs names s) = None" by (rule scan_succeeds)
  then show ?thesis using that by (cases "scan u fs names s") simp
qed

lemma run_ok:
  assumes "read_text fs en_file = Inr t" and "listdir fs locales_dir = Inr names"
    and "\<forall>fn\<in>set (candidates names). readable fs (file_path fn)"
  obtains s4 where "scan u fs names (after_ref (keys_of_text u t)) = (None, s4)"
    and "run u fs = render u s4"
proof -
  from assms(3) obtain s4 where sc: "scan u fs names (after_ref (keys_of_text u t)) = (None, s4)"
    by (rule scan_total)
  then have "run u fs = render u s4" using assms(1,2) by (simp add: run_scan)
  with sc that show ?thesis by blast
qed

lemma empty_report:
  assumes "scan u fs names (after_ref K) = (None, s4)"
    and "\<forall>fn\<in>set (candidates names). missing_of u fs K fn = {}"
  shows "missing_report s4 = []"
proof -
  have "map_of (missing_report s4) = Map.empty"
    unfolding scan_state_ok(5)[OF assms(1)] using assms(2) by (auto simp: fun_eq_iff)
  then show ?thesis by simp
qed

text \<open>
  C3. When every candidate can be read and has all the keys of the reference file, the
  run ends normally and the whole output is the line \<^verbatim>\<open>Found N keys in en.ts\<close>, with
  \<open>N\<close> the number of reference keys, followed by the line
  \<^verbatim>\<open>All good! No missing keys found.\<close>
\<close>

theorem all_good_output:
  assumes "read_text fs en_file = Inr t" and "listdir fs locales_dir = Inr names"
    and "\<forall>fn\<in>set (candidates names).
           readable fs (file_path fn) \<and> keys_of_text u t \<subseteq> file_keys u fs (file_path fn)"
  shows "fst (run u fs) = None \<and>
         stdout (snd (run u fs)) =
           ascii ''Found '' @ str_nat (card (keys_of_text u t)) @ ascii '' keys in en.ts'' @ [10] @
           ascii ''All good! No missing keys found.'' @ [10]"
proof -
  have "\<forall>fn\<in>set (candidates names). readable fs (file_path fn)"
    using assms(3) by blast
  with assms(1,2) obtain s4
    where sc: "scan u fs names (after_ref (keys_of_text u t)) = (None, s4)"
    and r: "run u fs = render u s4"
    by (rule run_ok)
  have "missing_report s4 = []"
    using assms(3) by (intro empty_report[OF sc]) (auto simp: missing_of_def)
  then have "run u fs = (None, s4\<lparr>stdout := stdout s4 @ all_good\<rparr>)"
    unfolding r by (rule render_empty)
  then show ?thesis by (simp add: scan_state_ok(2)[OF sc] found_line_def all_good_def)
qed

theorem all_good_output_witness:
  "read_text full_fs en_file = Inr (ascii ''a: 1'' @ [10] @ ascii ''b: 2'' @ [10]) \<and>
   listdir full_fs locales_dir = Inr [ascii ''en.ts'', ascii ''fr.ts'', ascii ''notes.txt''] \<and>
   fst (run ascii_db full_fs) = None \<and>
   stdout (snd (run ascii_db full_fs)) =
     ascii ''Found 2 keys in en.ts'' @ [10] @ ascii ''All good! No missing keys found.'' @ [10]"
proof -
  let ?t = "ascii ''a: 1'' @ [10] @ ascii ''b: 2'' @ [10]"
  let ?names = "[ascii ''en.ts'', ascii ''fr.ts'', ascii ''notes.txt'']"
  have t: "read_text full_fs en_file = Inr ?t" by code_simp
  have l: "listdir full_fs locales_dir = Inr ?names" by code_simp
  have c: "\<forall>fn\<in>set (candidates ?names).
             readable full_fs (file_path fn) \<and>
             keys_of_text ascii_db ?t \<subseteq> file_keys ascii_db full_fs (file_path fn)"
    by code_simp
  have n: "ascii ''Found '' @ str_nat (card (keys_of_text ascii_db ?t)) @ ascii '' keys in en.ts''
             = ascii ''Found 2 keys in en.ts''"
    by code_simp
  from all_good_output[OF t l c] n t l show ?thesis by simp
qed

text \<open>
  C10. When the reference file declares no key and every candidate can be read, nothing is
  recorded and the output is \<^verbatim>\<open>Found 0 keys in en.ts\<close> followed by
  \<^verbatim>\<open>All good! No missing keys found.\<close>
\<close>

theorem empty_reference:
  assumes "read_text fs en_file = Inr t" and "keys_of_text u t = {}"
    and "listdir fs locales_dir = Inr names"
    and "\<forall>fn\<in>set (candidates names). readable fs (file_path fn)"
  shows "fst (run u fs) = None \<and> missing_report (snd (run u fs)) = [] \<and>
         stdout (snd (run u fs)) =
           ascii ''Found 0 keys in en.ts'' @ [10] @
           ascii ''All good! No missing keys found.'' @ [10]"
proof -
  from assms(1,3,4) obtain s4
    where sc: "scan u fs names (after_ref (keys_of_text u t)) = (None, s4)"
    and r: "run u fs = render u s4"
    by (rule run_ok)
  have e: "missing_report s4 = []"
    by (rule empty_report[OF sc]) (simp add: missing_of_def assms(2))
  then have r': "run u fs = (None, s4\<lparr>stdout := stdout s4 @ all_good\<rparr>)"
    unfolding r by (rule render_empty)
  have "stdout s4 = found_line {}"
    by (simp add: scan_state_ok(2)[OF sc] assms(2))
  moreover have "found_line {} = ascii ''Found 0 keys in en.ts'' @ [10]"
    by (simp add: found_line_def str_nat.simps ascii_def)
  ultimately show ?thesis by (simp add: r' e all_good_def)
qed

theorem empty_reference_witness:
  "read_text empty_ref_fs en_file = Inr (ascii ''export default {}'' @ [10]) \<and>
   keys_of_text ascii_db (ascii ''export default {}'' @ [10]) = {} \<and>
   listdir empty_ref_fs locales_dir = Inr [ascii ''fr.ts'', ascii ''en.ts''] \<and>
   stdout (snd (run ascii_db empty_ref_fs)) =
     ascii ''Found 0 keys in en.ts'' @ [10] @ ascii ''All good! No missing keys found.'' @ [10]"
proof -
  let ?t = "ascii ''export default {}'' @ [10]"
  let ?names = "[ascii ''fr.ts'', ascii ''en.ts'']"
  have t: "read_text empty_ref_fs en_file = Inr ?t" by code_simp
  have k: "keys_of_text ascii_db ?t = {}" by code_simp
  have l: "listdir empty_ref_fs locales_dir = Inr ?names" by code_simp
  have c: "\<forall>fn\<in>set (candidates ?names). readable empty_ref_fs (file_path fn)" by code_simp
  from empty_reference[OF t k l c] t k l show ?thesis by blast
qed

lemma sorted_list_props:
  "finite m \<Longrightarrow> sorted_wrt (<) (sorted_list_of_set m) \<and> set (sorted_list_of_set m) = m"
  by (simp add: strict_sorted_iff[symmetric])

lemma report_finite:
  assumes "scan u fs names (after_ref (keys_of_text u t)) = (r, s4)"
  shows "\<forall>e\<in>set (missing_report s4). finite (snd e)"
  using scan_finite[OF assms] by (simp add: finite_keys_of_text)

lemma sorted_zeta:
  "sorted_list_of_set {ascii ''zeta'', ascii ''alpha'', ascii ''mu''} =
     [ascii ''alpha'', ascii ''mu'', ascii ''zeta'']"
  by code_simp

text \<open>
  C4. When the report is not empty, the output is the \<^verbatim>\<open>Found\<close> line followed by one
  section per entry of \<open>missing_report\<close>, in the order of the dictionary: an empty line,
  \<^verbatim>\<open>Missing keys in <filename>:\<close>, then one line \<^verbatim>\<open> - <key>\<close> per key. The keys of a
  section are all the missing keys of the file, in strictly ascending order. For a listing
  without repeated names the order of the dictionary is the order of the listing. Missing
  keys \<open>{zeta, alpha, mu}\<close> are printed as \<^verbatim>\<open>alpha\<close>, \<^verbatim>\<open>mu\<close>, \<^verbatim>\<open>zeta\<close>.
\<close>

theorem report_rendering:
  assumes "run u fs = (None, s)" and "missing_report s \<noteq> []"
  shows "stdout s =
           ascii ''Found '' @ str_nat (card (en_keys s)) @ ascii '' keys in en.ts'' @ [10] @
           concat (map section_text (missing_report s))
       \<and> (\<forall>e\<in>set (missing_report s).
            sorted_wrt (<) (sorted_list_of_set (snd e)) \<and>
            set (sorted_list_of_set (snd e)) = snd e)
       \<and> (\<forall>names. listdir fs locales_dir = Inr names \<and> distinct names \<longrightarrow>
            map fst (missing_report s) =
              filter (\<lambda>fn. reported s fn \<noteq> {}) (candidates names))
       \<and> (\<forall>fn. section_text (fn, {ascii ''zeta'', ascii ''alpha'', ascii ''mu''}) =
            [10] @ ascii ''Missing keys in '' @ fn @ ascii '':'' @ [10] @
            ascii '' - alpha'' @ [10] @ ascii '' - mu'' @ [10] @ ascii '' - zeta'' @ [10])"
proof -
  from assms(1) obtain t names s4 where t: "read_text fs en_file = Inr t"
    and l: "listdir fs locales_dir = Inr names"
    and sc: "scan u fs names (after_ref (keys_of_text u t)) = (None, s4)"
    and rn: "render u s4 = (None, s)"
    by (rule run_None)
  note keep = render_keeps[OF rn]
  have rep: "missing_report s = missing_report s4" by (simp add: keep)
  have a: "stdout s =
           ascii ''Found '' @ str_nat (card (en_keys s)) @ ascii '' keys in en.ts'' @ [10] @
           concat (map section_text (missing_report s))"
    using assms(2) render_None[OF rn]
    by (simp add: keep scan_state_ok(1,2)[OF sc] found_line_def)
  have b: "sorted_wrt (<) (sorted_list_of_set (snd e)) \<and>
            set (sorted_list_of_set (snd e)) = snd e" if "e \<in> set (missing_report s)" for e
    using that report_finite[OF sc] unfolding rep by (intro sorted_list_props) simp
  have c: "map fst (missing_report s) =
              filter (\<lambda>fn. reported s fn \<noteq> {}) (candidates names')"
    if "listdir fs locales_dir = Inr names'" and "distinct names'" for names'
  proof -
    from that l have n: "names' = names" by simp
    have "missing_report s4 =
        map (\<lambda>fn. (fn, missing_of u fs (keys_of_text u t) fn))
          (filter (\<lambda>fn. missing_of u fs (keys_of_text u t) fn \<noteq> {}) (candidates names))"
      using scan_order[OF sc] that(2) by (simp add: n)
    then have "map fst (missing_report s) =
        filter (\<lambda>fn. missing_of u fs (keys_of_text u t) fn \<noteq> {}) (candidates names)"
      by (simp add: rep comp_def)
    also have "\<dots> = filter (\<lambda>fn. reported s fn \<noteq> {}) (candidates names)"
      by (rule filter_cong) (simp_all add: reported_eq[OF sc rep])
    finally show ?thesis by (simp add: n)
  qed
  have d: "section_text (fn, {ascii ''zeta'', ascii ''alpha'', ascii ''mu''}) =
            [10] @ ascii ''Missing keys in '' @ fn @ ascii '':'' @ [10] @
            ascii '' - alpha'' @ [10] @ ascii '' - mu'' @ [10] @ ascii '' - zeta'' @ [10]" for fn
    by (simp add: section_text_def sorted_zeta) (simp add: ascii_def)
  from a b c d show ?thesis by blast
qed

theorem report_rendering_witness:
  "run ascii_db zeta_fs = (None, snd (run ascii_db zeta_fs)) \<and>
   missing_report (snd (run ascii_db zeta_fs)) \<noteq> [] \<and>
   stdout (snd (run ascii_db zeta_fs)) =
     ascii ''Found 3 keys in en.ts'' @ [10] @
     [10] @ ascii ''Missing keys in fr.ts:'' @ [10] @
     ascii '' - alpha'' @ [10] @ ascii '' - mu'' @ [10] @ ascii '' - zeta'' @ [10]"
proof -
  have r: "run ascii_db zeta_fs = (None, snd (run ascii_db zeta_fs))"
    by (rule prod_eqI; code_simp)
  have m: "missing_report (snd (run ascii_db zeta_fs)) =
             [(ascii ''fr.ts'', {ascii ''zeta'', ascii ''alpha'', ascii ''mu''})]"
    by code_simp
  have k: "ascii ''Found '' @ str_nat (card (en_keys (snd (run ascii_db zeta_fs)))) @
             ascii '' keys in en.ts'' = ascii ''Found 3 keys in en.ts''"
    by code_simp
  have ne: "missing_report (snd (run ascii_db zeta_fs)) \<noteq> []" by (simp add: m)
  from report_rendering[OF r ne]
  have "stdout (snd (run ascii_db zeta_fs)) =
           ascii ''Found '' @ str_nat (card (en_keys (snd (run ascii_db zeta_fs)))) @
           ascii '' keys in en.ts'' @ [10] @
           concat (map section_text (missing_report (snd (run ascii_db zeta_fs))))"
    and "section_text (ascii ''fr.ts'', {ascii ''zeta'', ascii ''alpha'', ascii ''mu''}) =
            [10] @ ascii ''Missing keys in '' @ ascii ''fr.ts'' @ ascii '':'' @ [10] @
            ascii '' - alpha'' @ [10] @ ascii '' - mu'' @ [10] @ ascii '' - zeta'' @ [10]"
    by blast+
  then have "stdout (snd (run ascii_db zeta_fs)) =
     ascii ''Found 3 keys in en.ts'' @ [10] @
     [10] @ ascii ''Missing keys in fr.ts:'' @ [10] @
     ascii '' - alpha'' @ [10] @ ascii '' - mu'' @ [10] @ ascii '' - zeta'' @ [10]"
    using k by (simp add: m) (simp add: ascii_def)
  with r ne show ?thesis by blast
qed

lemma run_state:
  assumes "run u fs = (r, s)" and "read_text fs en_file = Inr t"
    and "listdir fs locales_dir = Inr names"
  shows "en_keys s = keys_of_text u t"
    and "\<exists>k. opened s = en_file # take k (map file_path (candidates names))"
    and "r = None \<Longrightarrow> opened s = en_file # map file_path (candidates names)"
    and "fst ` set (missing_report s) \<subseteq> set (candidates names)"
proof -
  from assms obtain r4 s4
    where sc: "scan u fs names (after_ref (keys_of_text u t)) = (r4, s4)"
    and e: "en_keys s = en_keys s4" and m: "missing_report s = missing_report s4"
    and op: "opened s = opened s4" and n: "r = None \<longrightarrow> r4 = None"
    by (rule run_decompose)
  show "en_keys s = keys_of_text u t" using scan_keeps[OF sc] e by simp
  show "\<exists>k. opened s = en_file # take k (map file_path (candidates names))"
    using scan_opened_any[OF sc] op by simp
  show "opened s = en_file # map file_path (candidates names)" if "r = None"
    using scan_opened[OF sc] n that op by simp
  show "fst ` set (missing_report s) \<subseteq> set (candidates names)"
    using scan_report_keys[OF sc] m by simp
qed

text \<open>
  C5. A name of the listing is read in the loop exactly when it ends with \<^verbatim>\<open>.ts\<close> and is
  not \<^verbatim>\<open>en.ts\<close>: the paths opened after the reference file are those of such names, in
  the order of the listing (all of them when the run ends normally, the first few when it
  is aborted). No other name is opened in the loop or recorded in the report; in
  particular \<^verbatim>\<open>readme.md\<close> and \<^verbatim>\<open>en.ts\<close> are skipped.
\<close>

theorem candidate_selection:
  assumes "run u fs = (r, s)" and "read_text fs en_file = Inr t"
    and "listdir fs locales_dir = Inr names"
  shows "(\<forall>fn. \<not> skipped fn \<longleftrightarrow> endswith fn (ascii ''.ts'') \<and> fn \<noteq> ascii ''en.ts'')
       \<and> skipped (ascii ''readme.md'') \<and> skipped (ascii ''en.ts'')
       \<and> (\<exists>k. tl (opened s) =
              take k (map file_path
                (filter (\<lambda>fn. endswith fn (ascii ''.ts'') \<and> fn \<noteq> ascii ''en.ts'') names)))
       \<and> (r = None \<longrightarrow> tl (opened s) =
              map file_path
                (filter (\<lambda>fn. endswith fn (ascii ''.ts'') \<and> fn \<noteq> ascii ''en.ts'') names))
       \<and> (\<forall>fn. file_path fn \<in> set (tl (opened s)) \<or> fn \<in> fst ` set (missing_report s) \<longrightarrow>
              fn \<in> set names \<and> endswith fn (ascii ''.ts'') \<and> fn \<noteq> ascii ''en.ts'')"
proof -
  note st = run_state[OF assms]
  have a: "\<not> skipped fn \<longleftrightarrow> endswith fn (ascii ''.ts'') \<and> fn \<noteq> ascii ''en.ts''" for fn
    by (rule skipped_iff)
  have b: "skipped (ascii ''readme.md'')" "skipped (ascii ''en.ts'')"
    by (simp_all add: skipped_def endswith_def ascii_def)
  from st(2) obtain k where k: "opened s = en_file # take k (map file_path (candidates names))"
    by blast
  then have c: "\<exists>k. tl (opened s) =
              take k (map file_path
                (filter (\<lambda>fn. endswith fn (ascii ''.ts'') \<and> fn \<noteq> ascii ''en.ts'') names))"
    by (auto simp: candidates_filter)
  have d: "tl (opened s) = map file_path
                (filter (\<lambda>fn. endswith fn (ascii ''.ts'') \<and> fn \<noteq> ascii ''en.ts'') names)"
    if "r = None"
    using st(3)[OF that] by (simp add: candidates_filter)
  have e: "fn \<in> set names \<and> endswith fn (ascii ''.ts'') \<and> fn \<noteq> ascii ''en.ts''"
    if "file_path fn \<in> set (tl (opened s)) \<or> fn \<in> fst ` set (missing_report s)" for fn
  proof -
    have "fn \<in> set (candidates names)"
      using that
    proof
      assume "file_path fn \<in> set (tl (opened s))"
      then have "file_path fn \<in> file_path ` set (candidates names)"
        unfolding k by (auto dest!: in_set_takeD)
      then show ?thesis using file_path_inj by blast
    next
      assume "fn \<in> fst ` set (missing_report s)"
      then show ?thesis using st(4) by blast
    qed
    then show ?thesis by (simp add: candidates_filter)
  qed
  from a b c d e show ?thesis by blast
qed

theorem candidate_selection_witness:
  "run ascii_db abc_fs = (None, snd (run ascii_db abc_fs)) \<and>
   read_text abc_fs (file_path (ascii ''readme.md'')) = Inr (ascii ''zzz: 1'' @ [10]) \<and>
   tl (opened (snd (run ascii_db abc_fs))) = [file_path (ascii ''fr.ts'')]"
proof -
  let ?t = "ascii ''a: 1'' @ [10] @ ascii ''b: 2'' @ [10] @ ascii ''c: 3'' @ [10]"
  let ?names = "[ascii ''fr.ts'', ascii ''en.ts'', ascii ''readme.md'', ascii ''sub'']"
  have r: "run ascii_db abc_fs = (None, snd (run ascii_db abc_fs))"
    by (rule prod_eqI; code_simp)
  have t: "read_text abc_fs en_file = Inr ?t" by code_simp
  have l: "listdir abc_fs locales_dir = Inr ?names" by code_simp
  have f: "filter (\<lambda>fn. endswith fn (ascii ''.ts'') \<and> fn \<noteq> ascii ''en.ts'') ?names =
             [ascii ''fr.ts'']"
    by code_simp
  have m: "read_text abc_fs (file_path (ascii ''readme.md'')) = Inr (ascii ''zzz: 1'' @ [10])"
    by code_simp
  from candidate_selection[OF r t l]
  have "tl (opened (snd (run ascii_db abc_fs))) =
          map file_path (filter (\<lambda>fn. endswith fn (ascii ''.ts'') \<and> fn \<noteq> ascii ''en.ts'') ?names)"
    by blast
  then have "tl (opened (snd (run ascii_db abc_fs))) = [file_path (ascii ''fr.ts'')]"
    unfolding f by simp
  with r m show ?thesis by blast
qed

text \<open>
  C8. Whatever the outcome of the run after the reference file was read, \<open>en_keys\<close> is at
  the end the set extracted from the reference file, the reference file is the first file
  opened and it is opened exactly once; the loop never changes \<open>en_keys\<close>.
\<close>

theorem en_keys_fixed:
  assumes "run u fs = (r, s)" and "read_text fs en_file = Inr t"
  shows "en_keys s = keys_of_text u t \<and> hd (opened s) = en_file \<and>
         count_list (opened s) en_file = 1 \<and>
         (\<forall>names s0 r' s'. scan u fs names s0 = (r', s') \<longrightarrow> en_keys s' = en_keys s0)"
proof -
  have inv: "\<forall>names s0 r' s'. scan u fs names s0 = (r', s') \<longrightarrow> en_keys s' = en_keys s0"
    using scan_keeps by blast
  show ?thesis
  proof (cases "listdir fs locales_dir")
    case (Inl e)
    with assms have "s = after_ref (keys_of_text u t)" by (simp add: run_dir_fail)
    with inv show ?thesis by simp
  next
    case (Inr names)
    note st = run_state[OF assms Inr]
    from st(2) obtain k where k: "opened s = en_file # take k (map file_path (candidates names))"
      by blast
    have "en_file \<notin> set (take k (map file_path (candidates names)))"
    proof
      assume "en_file \<in> set (take k (map file_path (candidates names)))"
      then have "en_file \<in> set (map file_path (candidates names))"
        by (rule in_set_takeD)
      then obtain fn where "fn \<in> set (candidates names)" "file_path fn = en_file"
        by auto
      then show False using en_file_not_candidate by (auto simp: candidates_def)
    qed
    then have "count_list (opened s) en_file = 1" by (simp add: k count_list_0_iff)
    with st(1) k inv show ?thesis by simp
  qed
qed

theorem en_keys_fixed_witness:
  "read_text abc_fs en_file =
     Inr (ascii ''a: 1'' @ [10] @ ascii ''b: 2'' @ [10] @ ascii ''c: 3'' @ [10]) \<and>
   en_keys (snd (run ascii_db abc_fs)) = {ascii ''a'', ascii ''b'', ascii ''c''} \<and>
   count_list (opened (snd (run ascii_db abc_fs))) en_file = 1"
proof -
  let ?t = "ascii ''a: 1'' @ [10] @ ascii ''b: 2'' @ [10] @ ascii ''c: 3'' @ [10]"
  have r: "run ascii_db abc_fs = (fst (run ascii_db abc_fs), snd (run ascii_db abc_fs))" by simp
  have t: "read_text abc_fs en_file = Inr ?t" by code_simp
  have k: "keys_of_text ascii_db ?t = {ascii ''a'', ascii ''b'', ascii ''c''}" by code_simp
  from en_keys_fixed[OF r t] t k show ?thesis by simp
qed

section \<open>Failures, determinism and the direction of the audit\<close>

lemma readable_iff: "readable fs path \<longleftrightarrow> (\<exists>t. read_text fs path = Inr t)"
  by (cases "read_text fs path") (simp_all add: readable_def)

text \<open>
  \<^verbatim>\<open>print\<close> can end a run in which every file was read. Under strict UTF-8 a file name
  with a lone surrogate stops the report at its header; under an ASCII output a key with
  an accented letter stops it inside the section, after the keys before it.
\<close>

text \<open>
  \<^verbatim>\<open>print\<close> can end a run in which every file was read. Under an ASCII output a file
  name with an accented letter stops the report at its header, and a key with one stops it
  inside the section, after the keys before it. (Under strict UTF-8 a name with a lone
  surrogate does the same.)
\<close>

lemma accented_name_aborts:
  "run ascii_out_db accent_name_fs =
     (Some (UnicodeEncodeError
              ([10] @ ascii ''Missing keys in '' @ [233] @ ascii ''.ts'' @ ascii '':'')),
      \<lparr>en_keys = {ascii ''a''},
       missing_report = [([233] @ ascii ''.ts'', {ascii ''a''})],
       stdout = ascii ''Found 1 keys in en.ts'' @ [10],
       opened = [en_file, file_path ([233] @ ascii ''.ts'')]\<rparr>)"
  by code_simp

lemma accented_key_aborts:
  "fst (run ascii_out_db accent_fs) = Some (UnicodeEncodeError (ascii '' - '' @ [233])) \<and>
   stdout (snd (run ascii_out_db accent_fs)) =
     ascii ''Found 2 keys in en.ts'' @ [10] @
     [10] @ ascii ''Missing keys in fr.ts:'' @ [10] @ ascii '' - a'' @ [10]"
  by code_simp

lemma access_failure:
  assumes "\<not> (readable fs en_file \<and>
      (\<exists>names. listdir fs locales_dir = Inr names \<and>
         (\<forall>fn\<in>set (candidates names). readable fs (file_path fn))))"
  shows "fst (run u fs) \<noteq> None \<and>
         (stdout (snd (run u fs)) = [] \<or>
          stdout (snd (run u fs)) = found_line (file_keys u fs en_file))"
proof (cases "read_text fs en_file")
  case (Inl e)
  then show ?thesis by (simp add: run_ref_fail init_state_def)
next
  case t: (Inr t)
  then have k: "file_keys u fs en_file = keys_of_text u t" by (simp add: file_keys_def)
  show ?thesis
  proof (cases "listdir fs locales_dir")
    case (Inl e)
    with t show ?thesis by (simp add: run_dir_fail k)
  next
    case (Inr names)
    obtain r4 s4 where sc: "scan u fs names (after_ref (keys_of_text u t)) = (r4, s4)"
      by (cases "scan u fs names (after_ref (keys_of_text u t))")
    have "r4 \<noteq> None"
    proof
      assume "r4 = None"
      from scan_None_readable[OF sc this]
      have "\<forall>fn\<in>set (candidates names). readable fs (file_path fn)"
        by (simp add: candidates_def)
      moreover have "readable fs en_file" using t by (simp add: readable_iff)
      ultimately show False using assms Inr by blast
    qed
    then obtain e where "r4 = Some e" by blast
    with sc t Inr have "run u fs = (Some e, s4)" by (simp add: run_scan)
    with scan_keeps[OF sc] show ?thesis by (simp add: k)
  qed
qed

lemma readable_outcome:
  assumes "readable fs en_file" and "listdir fs locales_dir = Inr names"
    and "\<forall>fn\<in>set (candidates names). readable fs (file_path fn)"
  shows "fst (run u fs) = None \<or> (\<exists>x. fst (run u fs) = Some (UnicodeEncodeError x))"
proof -
  from assms(1) obtain t where t: "read_text fs en_file = Inr t" by (auto simp: readable_iff)
  from t assms(2,3) obtain s4 where r: "run u fs = render u s4" by (rule run_ok)
  obtain r' s' where rn: "render u s4 = (r', s')" by (cases "render u s4")
  show ?thesis
  proof (cases r')
    case None
    with r rn show ?thesis by simp
  next
    case (Some e)
    with rn render_error[of u s4 e s'] r show ?thesis by auto
  qed
qed

lemma run_candidate_fail:
  assumes t: "read_text fs en_file = Inr t"
    and l: "listdir fs locales_dir = Inr (pre @ fn # post)"
    and pre: "\<forall>f\<in>set (candidates pre). readable fs (file_path f)"
    and fn: "\<not> skipped fn" and e: "read_text fs (file_path fn) = Inl e"
  shows "run u fs =
           (Some e, \<lparr>en_keys = keys_of_text u t,
                     missing_report = missing_report (snd (scan u fs pre (after_ref (keys_of_text u t)))),
                     stdout = found_line (keys_of_text u t),
                     opened = en_file # map file_path (candidates pre) @ [file_path fn]\<rparr>)"
proof -
  let ?s3 = "after_ref (keys_of_text u t)"
  from pre obtain s1 where s1: "scan u fs pre ?s3 = (None, s1)" by (rule scan_total)
  have "scan u fs (pre @ fn # post) ?s3 = scan u fs (fn # post) s1"
    using s1 by (rule scan_append)
  also have "\<dots> = (Some e, s1\<lparr>opened := opened s1 @ [file_path fn]\<rparr>)"
    using fn e by (rule scan_step_fail)
  finally have "run u fs = (Some e, s1\<lparr>opened := opened s1 @ [file_path fn]\<rparr>)"
    using t l by (simp add: run_scan)
  moreover have "s1\<lparr>opened := opened s1 @ [file_path fn]\<rparr> =
      \<lparr>en_keys = keys_of_text u t,
       missing_report = missing_report (snd (scan u fs pre ?s3)),
       stdout = found_line (keys_of_text u t),
       opened = en_file # map file_path (candidates pre) @ [file_path fn]\<rparr>"
    using scan_state_ok(1-3)[OF s1] by (simp add: s1)
  ultimately show ?thesis by simp
qed

text \<open>
  C6. A failure to read is fatal. When the reference file, the directory or a candidate
  cannot be read, the run ends with an error, and its output is empty (the reference file
  failed) or only the \<^verbatim>\<open>Found\<close> line: no section of the report and no success line is
  printed. So a run that ends normally has read them all, and when all can be read the only
  error left is that of \<^verbatim>\<open>print\<close>. The error of the run is the one the failing read
  raised: that of the reference file, else that of the listing, else that of the first
  candidate that cannot be read. That candidate is the last path opened and is opened once:
  it is neither passed over nor read again.
\<close>

theorem failure_is_fatal:
  "(\<not> (readable fs en_file \<and>
        (\<exists>names. listdir fs locales_dir = Inr names \<and>
           (\<forall>fn\<in>set (candidates names). readable fs (file_path fn)))) \<longrightarrow>
      fst (run u fs) \<noteq> None \<and>
      (stdout (snd (run u fs)) = [] \<or>
       stdout (snd (run u fs)) =
         ascii ''Found '' @ str_nat (card (file_keys u fs en_file)) @
         ascii '' keys in en.ts'' @ [10]))
   \<and> (fst (run u fs) = None \<longrightarrow>
         readable fs en_file \<and>
         (\<exists>names. listdir fs locales_dir = Inr names \<and>
            (\<forall>fn\<in>set (candidates names). readable fs (file_path fn))))
   \<and> (readable fs en_file \<and>
       (\<exists>names. listdir fs locales_dir = Inr names \<and>
          (\<forall>fn\<in>set (candidates names). readable fs (file_path fn))) \<longrightarrow>
         fst (run u fs) = None \<or> (\<exists>x. fst (run u fs) = Some (UnicodeEncodeError x)))
   \<and> (\<forall>e. read_text fs en_file = Inl e \<longrightarrow>
         fst (run u fs) = Some e \<and> stdout (snd (run u fs)) = [] \<and>
         opened (snd (run u fs)) = [en_file])
   \<and> (\<forall>e. readable fs en_file \<and> listdir fs locales_dir = Inl e \<longrightarrow>
         fst (run u fs) = Some e \<and> opened (snd (run u fs)) = [en_file])
   \<and> (\<forall>pre fn post e.
         readable fs en_file \<and> listdir fs locales_dir = Inr (pre @ fn # post) \<and>
         (\<forall>f\<in>set (candidates pre). readable fs (file_path f)) \<and>
         \<not> skipped fn \<and> read_text fs (file_path fn) = Inl e \<longrightarrow>
         fst (run u fs) = Some e \<and>
         opened (snd (run u fs)) = en_file # map file_path (candidates pre) @ [file_path fn] \<and>
         count_list (opened (snd (run u fs))) (file_path fn) = 1)"
proof -
  have a: "fst (run u fs) \<noteq> None \<and>
      (stdout (snd (run u fs)) = [] \<or>
       stdout (snd (run u fs)) =
         ascii ''Found '' @ str_nat (card (file_keys u fs en_file)) @
         ascii '' keys in en.ts'' @ [10])"
    if "\<not> (readable fs en_file \<and>
        (\<exists>names. listdir fs locales_dir = Inr names \<and>
           (\<forall>fn\<in>set (candidates names). readable fs (file_path fn))))"
    using access_failure[OF that, of u] by (simp add: found_line_def)
  have b: "readable fs en_file \<and>
         (\<exists>names. listdir fs locales_dir = Inr names \<and>
            (\<forall>fn\<in>set (candidates names). readable fs (file_path fn)))"
    if "fst (run u fs) = None"
    using that a by blast
  have b': "fst (run u fs) = None \<or> (\<exists>x. fst (run u fs) = Some (UnicodeEncodeError x))"
    if "readable fs en_file \<and>
       (\<exists>names. listdir fs locales_dir = Inr names \<and>
          (\<forall>fn\<in>set (candidates names). readable fs (file_path fn)))"
    using that readable_outcome[of fs _ u] by blast
  have c: "fst (run u fs) = Some e \<and> stdout (snd (run u fs)) = [] \<and>
         opened (snd (run u fs)) = [en_file]" if "read_text fs en_file = Inl e" for e
    using that by (simp add: run_ref_fail init_state_def)
  have d: "fst (run u fs) = Some e \<and> opened (snd (run u fs)) = [en_file]"
    if "readable fs en_file \<and> listdir fs locales_dir = Inl e" for e
    using that by (auto simp: readable_iff run_dir_fail)
  have e: "fst (run u fs) = Some e \<and>
         opened (snd (run u fs)) = en_file # map file_path (candidates pre) @ [file_path fn] \<and>
         count_list (opened (snd (run u fs))) (file_path fn) = 1"
    if h: "readable fs en_file \<and> listdir fs locales_dir = Inr (pre @ fn # post) \<and>
         (\<forall>f\<in>set (candidates pre). readable fs (file_path f)) \<and>
         \<not> skipped fn \<and> read_text fs (file_path fn) = Inl e" for pre fn post e
  proof -
    from h obtain t where t: "read_text fs en_file = Inr t" by (auto simp: readable_iff)
    from h have l: "listdir fs locales_dir = Inr (pre @ fn # post)"
      and pre: "\<forall>f\<in>set (candidates pre). readable fs (file_path f)"
      and fn: "\<not> skipped fn" and er: "read_text fs (file_path fn) = Inl e"
      by blast+
    note r = run_candidate_fail[OF t l pre fn er, of u]
    have n1: "file_path fn \<noteq> en_file" using fn by (rule en_file_not_candidate)
    have "\<not> readable fs (file_path fn)" using er by (simp add: readable_def)
    then have "fn \<notin> set (candidates pre)" using pre by blast
    then have n2: "file_path fn \<notin> set (map file_path (candidates pre))"
      using file_path_inj by auto
    have "count_list (en_file # map file_path (candidates pre) @ [file_path fn]) (file_path fn) = 1"
      using n1 n2 by (simp add: count_list_0_iff)
    then show ?thesis by (simp add: r)
  qed
  from a b b' c d e show ?thesis by blast
qed

theorem failure_is_fatal_witness:
  "readable broken_fs en_file \<and>
   listdir broken_fs locales_dir = Inr ([ascii ''fr.ts''] @ ascii ''de.ts'' # [ascii ''es.ts'']) \<and>
   read_text broken_fs (file_path (ascii ''de.ts'')) = Inl (OSError (file_path (ascii ''de.ts''))) \<and>
   fst (run ascii_db broken_fs) = Some (OSError (file_path (ascii ''de.ts''))) \<and>
   stdout (snd (run ascii_db broken_fs)) = ascii ''Found 2 keys in en.ts'' @ [10] \<and>
   opened (snd (run ascii_db broken_fs)) =
     [en_file, file_path (ascii ''fr.ts''), file_path (ascii ''de.ts'')]"
proof -
  let ?e = "OSError (file_path (ascii ''de.ts''))"
  let ?names = "[ascii ''fr.ts''] @ ascii ''de.ts'' # [ascii ''es.ts'']"
  have a: "readable broken_fs en_file" by code_simp
  have l: "listdir broken_fs locales_dir = Inr ?names" by code_simp
  have p: "\<forall>f\<in>set (candidates [ascii ''fr.ts'']). readable broken_fs (file_path f)" by code_simp
  have c: "candidates [ascii ''fr.ts''] = [ascii ''fr.ts'']" by code_simp
  have s: "\<not> skipped (ascii ''de.ts'')" by code_simp
  have e: "read_text broken_fs (file_path (ascii ''de.ts'')) = Inl ?e" by code_simp
  have k: "ascii ''Found '' @ str_nat (card (file_keys ascii_db broken_fs en_file)) @
           ascii '' keys in en.ts'' @ [10] = ascii ''Found 2 keys in en.ts'' @ [10]"
    by code_simp
  have u: "\<not> (\<forall>fn\<in>set (candidates ?names). readable broken_fs (file_path fn))" by code_simp
  have nr: "\<not> (readable broken_fs en_file \<and>
        (\<exists>names. listdir broken_fs locales_dir = Inr names \<and>
           (\<forall>fn\<in>set (candidates names). readable broken_fs (file_path fn))))"
    using u by (simp add: l)
  from failure_is_fatal[of broken_fs ascii_db] a l p s e
  have f: "fst (run ascii_db broken_fs) = Some ?e"
    and o: "opened (snd (run ascii_db broken_fs)) =
       en_file # map file_path (candidates [ascii ''fr.ts'']) @ [file_path (ascii ''de.ts'')]"
    by blast+
  from failure_is_fatal[of broken_fs ascii_db] nr
  have "stdout (snd (run ascii_db broken_fs)) = [] \<or>
        stdout (snd (run ascii_db broken_fs)) =
           ascii ''Found '' @ str_nat (card (file_keys ascii_db broken_fs en_file)) @
           ascii '' keys in en.ts'' @ [10]"
    by blast
  moreover have "stdout (snd (run ascii_db broken_fs)) \<noteq> []" by code_simp
  ultimately have out: "stdout (snd (run ascii_db broken_fs)) = ascii ''Found 2 keys in en.ts'' @ [10]"
    using k by simp
  from a l e f out o show ?thesis by (simp add: c)
qed



text \<open>
  C9. The keys recorded for a file are keys of the reference file that the file lacks, so a
  key that is in a candidate and not in the reference file is recorded for no file. The
  output of a normal run is the \<^verbatim>\<open>Found\<close> line and the sections of the recorded entries.
  When the candidates of a second file system have all the keys they have in the first, and
  the reference file and the listing are the same, every file's recorded set in the second
  run is included in its recorded set in the first.
\<close>

theorem report_one_directional:
  assumes "run u fs = (None, s)" and "run u fs' = (None, s')"
    and "read_text fs en_file = Inr t" and "read_text fs' en_file = Inr t"
    and "listdir fs locales_dir = Inr names" and "listdir fs' locales_dir = Inr names"
    and "\<forall>fn\<in>set (candidates names).
           file_keys u fs (file_path fn) \<subseteq> file_keys u fs' (file_path fn)"
  shows "(\<forall>e\<in>set (missing_report s).
            snd e = reported s (fst e) \<and> snd e \<subseteq> keys_of_text u t \<and>
            snd e \<inter> file_keys u fs (file_path (fst e)) = {})
       \<and> (\<forall>fn. reported s fn \<subseteq> keys_of_text u t - file_keys u fs (file_path fn))
       \<and> stdout s =
           ascii ''Found '' @ str_nat (card (keys_of_text u t)) @ ascii '' keys in en.ts'' @ [10] @
           (if missing_report s = [] then ascii ''All good! No missing keys found.'' @ [10]
            else concat (map section_text (missing_report s)))
       \<and> (\<forall>fn. reported s' fn \<subseteq> reported s fn)"
proof -
  let ?K = "keys_of_text u t"
  from assms(1,3,5) obtain s4 where sc: "scan u fs names (after_ref ?K) = (None, s4)"
    and rep: "missing_report s = missing_report s4"
    and out: "stdout s = stdout s4 @
      (if missing_report s = [] then all_good else concat (map section_text (missing_report s)))"
    by (rule run_None_at)
  from assms(2,4,6) obtain s4' where sc': "scan u fs' names (after_ref ?K) = (None, s4')"
    and rep': "missing_report s' = missing_report s4'"
    by (rule run_None_at)
  note r = reported_eq[OF sc rep]
  note r' = reported_eq[OF sc' rep']
  have a: "snd e = reported s (fst e) \<and> snd e \<subseteq> ?K \<and>
            snd e \<inter> file_keys u fs (file_path (fst e)) = {}" if "e \<in> set (missing_report s)" for e
  proof -
    obtain fn m where e: "e = (fn, m)" by (cases e)
    with that have "fn \<in> set (candidates names) \<and> m = missing_of u fs ?K fn"
      using report_membership[OF sc, of fn m] by (simp add: rep)
    then show ?thesis by (auto simp: e r missing_of_def)
  qed
  have b: "reported s fn \<subseteq> ?K - file_keys u fs (file_path fn)" for fn
    by (simp add: r missing_of_def)
  have c: "stdout s =
           ascii ''Found '' @ str_nat (card ?K) @ ascii '' keys in en.ts'' @ [10] @
           (if missing_report s = [] then ascii ''All good! No missing keys found.'' @ [10]
            else concat (map section_text (missing_report s)))"
    using out by (simp add: scan_state_ok(2)[OF sc] found_line_def all_good_def)
  have d: "reported s' fn \<subseteq> reported s fn" for fn
    using assms(7) by (auto simp: r r' missing_of_def)
  from a b c d show ?thesis by blast
qed

theorem report_one_directional_witness:
  "run ascii_db abc_fs = (None, snd (run ascii_db abc_fs)) \<and>
   run ascii_db abc_more_fs = (None, snd (run ascii_db abc_more_fs)) \<and>
   file_keys ascii_db abc_more_fs (file_path (ascii ''fr.ts'')) =
     {ascii ''a'', ascii ''c'', ascii ''b'', ascii ''extra''} \<and>
   reported (snd (run ascii_db abc_fs)) (ascii ''fr.ts'') = {ascii ''b''} \<and>
   reported (snd (run ascii_db abc_more_fs)) (ascii ''fr.ts'') = {} \<and>
   (\<forall>fn. reported (snd (run ascii_db abc_more_fs)) fn \<subseteq> reported (snd (run ascii_db abc_fs)) fn)"
proof -
  let ?t = "ascii ''a: 1'' @ [10] @ ascii ''b: 2'' @ [10] @ ascii ''c: 3'' @ [10]"
  let ?names = "[ascii ''fr.ts'', ascii ''en.ts'', ascii ''readme.md'', ascii ''sub'']"
  have r: "run ascii_db abc_fs = (None, snd (run ascii_db abc_fs))"
    by (rule prod_eqI; code_simp)
  have r': "run ascii_db abc_more_fs = (None, snd (run ascii_db abc_more_fs))"
    by (rule prod_eqI; code_simp)
  have t: "read_text abc_fs en_file = Inr ?t" by code_simp
  have t': "read_text abc_more_fs en_file = Inr ?t" by code_simp
  have l: "listdir abc_fs locales_dir = Inr ?names" by code_simp
  have l': "listdir abc_more_fs locales_dir = Inr ?names" by code_simp
  have c: "\<forall>fn\<in>set (candidates ?names).
           file_keys ascii_db abc_fs (file_path fn) \<subseteq> file_keys ascii_db abc_more_fs (file_path fn)"
    by code_simp
  have k: "file_keys ascii_db abc_more_fs (file_path (ascii ''fr.ts'')) =
     {ascii ''a'', ascii ''c'', ascii ''b'', ascii ''extra''}"
    by code_simp
  have m: "reported (snd (run ascii_db abc_fs)) (ascii ''fr.ts'') = {ascii ''b''}" by code_simp
  have m': "reported (snd (run ascii_db abc_more_fs)) (ascii ''fr.ts'') = {}" by code_simp
  from report_one_directional[OF r r' t t' l l' c]
  have "\<forall>fn. reported (snd (run ascii_db abc_more_fs)) fn \<subseteq> reported (snd (run ascii_db abc_fs)) fn"
    by blast
  with r r' k m m' show ?thesis by blast
qed

end
